theory Spec2Isabelle
  imports Main "HOL-Library.Word"
begin

unbundle bit_operations_syntax

section \<open>The MAVLink packet codec of go-mavlink\<close>

text \<open>
  A shallow embedding of the package \<^verbatim>\<open>mavlink\<close>: the wire type \<^verbatim>\<open>Packet\<close>, the
  \<^verbatim>\<open>Decoder\<close> with \<^verbatim>\<open>Decode\<close> (stream) and \<^verbatim>\<open>DecodeBytes\<close> (buffer), and the
  \<^verbatim>\<open>Encoder\<close> with \<^verbatim>\<open>EncodePacket\<close>. Bytes are \<open>8 word\<close>, the checksum is a
  \<open>16 word\<close>. Go's run-time panics and its error values are results of the model.
\<close>

subsection \<open>Bytes, errors, panics\<close>

type_synonym u8 = "8 word"
type_synonym u16 = "16 word"

definition startByte :: u8 where
  "startByte = 0xfe"

definition numChecksumBytes :: nat where
  "numChecksumBytes = 2"

definition hdrLen :: nat where
  "hdrLen = 6"

text \<open>
  The error values the codec returns: its own \<^verbatim>\<open>ErrUnknownMsgID\<close> and \<^verbatim>\<open>ErrCrcFail\<close>,
  the anonymous \<^verbatim>\<open>errors.New("invalid header")\<close> of \<^verbatim>\<open>DecodeBytes\<close>, and the errors
  of package \<^verbatim>\<open>io\<close> that pass through it. \<open>ErrSink\<close> stands for whatever error the
  underlying writer reports.
\<close>

datatype error =
    EOF
  | ErrUnexpectedEOF
  | ErrShortWrite
  | ErrSink
  | ErrUnknownMsgID
  | ErrCrcFail
  | ErrInvalidHeader

text \<open>The two run-time panics of Go that slicing and indexing can raise.\<close>

datatype panic = SliceBoundsOutOfRange | IndexOutOfRange

subsection \<open>Go slices of bytes\<close>

text \<open>
  A Go slice sees \<open>len\<close> elements of its backing array and may be re-sliced up to \<open>cap\<close>.
  \<open>bytes\<close> are the elements below \<open>len\<close>, \<open>beyond\<close> the elements of the backing array
  between \<open>len\<close> and \<open>cap\<close>. Indexing is checked against \<open>len\<close>; the upper bound of a
  slice expression against \<open>cap\<close>; the default upper bound is \<open>len\<close>.
\<close>

record goslice =
  bytes :: "u8 list"
  beyond :: "u8 list"

definition slice_len :: "goslice \<Rightarrow> nat" where
  "slice_len b = length (bytes b)"

definition slice_cap :: "goslice \<Rightarrow> nat" where
  "slice_cap b = length (bytes b) + length (beyond b)"

text \<open>\<^verbatim>\<open>make([]byte, n)\<close> filled by a read, and any slice whose capacity is its length.\<close>

definition slice_of :: "u8 list \<Rightarrow> goslice" where
  "slice_of xs = \<lparr>bytes = xs, beyond = []\<rparr>"

text \<open>\<^verbatim>\<open>b[i]\<close>\<close>

definition index :: "goslice \<Rightarrow> nat \<Rightarrow> panic + u8" where
  "index b i = (if i < slice_len b then Inr (bytes b ! i) else Inl IndexOutOfRange)"

text \<open>\<^verbatim>\<open>b[lo:hi]\<close>\<close>

definition slice_range :: "goslice \<Rightarrow> nat \<Rightarrow> nat \<Rightarrow> panic + goslice" where
  "slice_range b lo hi =
     (if lo \<le> hi \<and> hi \<le> slice_cap b
      then Inr \<lparr>bytes = take (hi - lo) (drop lo (bytes b @ beyond b)),
                beyond = drop hi (bytes b @ beyond b)\<rparr>
      else Inl SliceBoundsOutOfRange)"

text \<open>\<^verbatim>\<open>b[lo:]\<close>\<close>

definition slice_from :: "goslice \<Rightarrow> nat \<Rightarrow> panic + goslice" where
  "slice_from b lo = slice_range b lo (slice_len b)"

text \<open>\<^verbatim>\<open>b[:hi]\<close>\<close>

definition slice_to :: "goslice \<Rightarrow> nat \<Rightarrow> panic + goslice" where
  "slice_to b hi = slice_range b 0 hi"

subsection \<open>Checksum engine (package x25)\<close>

text \<open>
  Modelled from the spec: package \<^verbatim>\<open>x25\<close> is imported by the codec and is not among the
  sources. The spec gives it as the table-driven CRC-16/X25 (polynomial 0x1021 reflected,
  that is 0x8408), initial value 0xFFFF, each byte processed through the lookup table,
  and the sum the raw 16-bit register. The table entry of a byte is computed here by
  the eight shift-and-xor rounds that generate the table.
\<close>

definition x25_round :: "u16 \<Rightarrow> u16" where
  "x25_round c = (if c AND 1 = 1 then drop_bit 1 c XOR 0x8408 else drop_bit 1 c)"

definition x25_table :: "u8 \<Rightarrow> u16" where
  "x25_table i =
     x25_round (x25_round (x25_round (x25_round
       (x25_round (x25_round (x25_round (x25_round (ucast i))))))))"

definition x25_New :: u16 where
  "x25_New = 0xffff"

definition x25_WriteByte :: "u16 \<Rightarrow> u8 \<Rightarrow> u16" where
  "x25_WriteByte crc b = drop_bit 8 crc XOR x25_table (ucast crc XOR b)"

definition x25_Write :: "u16 \<Rightarrow> u8 list \<Rightarrow> u16" where
  "x25_Write crc p = foldl x25_WriteByte crc p"

definition x25_Sum16 :: "u16 \<Rightarrow> u16" where
  "x25_Sum16 crc = crc"

subsection \<open>Dialect registry\<close>

text \<open>
  Modelled from the spec: the file that declares \<^verbatim>\<open>Dialect\<close>, \<^verbatim>\<open>DialectSlice\<close> and
  \<^verbatim>\<open>findCrcX\<close> is not among the sources. A dialect maps a message id to its crc-extra
  byte; a registry is the ordered list of its dialects; lookup returns the crc-extra of
  the first dialect that defines the id, and fails with \<^verbatim>\<open>ErrUnknownMsgID\<close> when none does.
\<close>

type_synonym Dialect = "(u8 \<times> u8) list"
type_synonym DialectSlice = "Dialect list"

fun findCrcX :: "DialectSlice \<Rightarrow> u8 \<Rightarrow> error + u8" where
  "findCrcX [] msgid = Inl ErrUnknownMsgID"
| "findCrcX (d # ds) msgid =
     (case map_of d msgid of Some crcx \<Rightarrow> Inr crcx | None \<Rightarrow> findCrcX ds msgid)"

subsection \<open>Packet, Decoder, Encoder\<close>

record Packet =
  SeqID :: u8
  SysID :: u8
  CompID :: u8
  MsgID :: u8
  Payload :: "u8 list"
  Checksum :: u16

text \<open>
  \<^verbatim>\<open>Decoder\<close> and \<^verbatim>\<open>Encoder\<close> both start with \<^verbatim>\<open>CurrSeqID\<close> and \<^verbatim>\<open>Dialects\<close>; the
  common part is the record \<open>Codec\<close> that each extends with its stream.
\<close>

record Codec =
  CurrSeqID :: u8
  Dialects :: DialectSlice

text \<open>
  The reader of a decoder (\<^verbatim>\<open>*bufio.Reader\<close>) is the list of the bytes its source still
  delivers; a source that has delivered all of them reports \<^verbatim>\<open>io.EOF\<close>.
\<close>

record Decoder = Codec +
  br :: "u8 list"

text \<open>
  The byte sink under an encoder's \<^verbatim>\<open>bufio.Writer\<close>: \<open>written\<close> are the bytes it has
  accepted; \<open>budget\<close> is how many more it accepts before it fails (\<open>None\<close>: it never
  fails).
\<close>

record Sink =
  written :: "u8 list"
  budget :: "nat option"

text \<open>
  \<^verbatim>\<open>bufio.Writer\<close>: a buffer of \<open>wsize\<close> bytes of which \<open>pending\<close> are filled (the
  library's \<^verbatim>\<open>buf[0:n]\<close>), the sticky error \<open>werr\<close>, and the sink \<open>wr\<close>.
\<close>

record Writer =
  wsize :: nat
  pending :: "u8 list"
  werr :: "error option"
  wr :: Sink

record Encoder = Codec +
  bw :: Writer

subsection \<open>Reading (bufio.Reader.ReadByte, io.ReadFull)\<close>

definition ReadByte :: "u8 list \<Rightarrow> (error + u8) \<times> u8 list" where
  "ReadByte r = (case r of [] \<Rightarrow> (Inl EOF, []) | c # cs \<Rightarrow> (Inr c, cs))"

text \<open>
  \<^verbatim>\<open>io.ReadFull(r, buf)\<close> with \<open>len(buf) = n\<close>: the bytes read, the error, the reader
  after it. It fails with \<^verbatim>\<open>io.EOF\<close> when no byte could be read and with
  \<^verbatim>\<open>io.ErrUnexpectedEOF\<close> when some but fewer than \<open>n\<close> could.
\<close>

definition ReadFull :: "u8 list \<Rightarrow> nat \<Rightarrow> u8 list \<times> error option \<times> u8 list" where
  "ReadFull r n =
     (if n \<le> length r then (take n r, None, drop n r)
      else if r = [] then ([], Some EOF, [])
      else (r, Some ErrUnexpectedEOF, []))"

subsection \<open>Writing (bufio.Writer.Write and Flush)\<close>

definition sink_Write :: "Sink \<Rightarrow> u8 list \<Rightarrow> nat \<times> error option \<times> Sink" where
  "sink_Write s p =
     (case budget s of
        None \<Rightarrow> (length p, None, s\<lparr>written := written s @ p\<rparr>)
      | Some k \<Rightarrow>
          if length p \<le> k
          then (length p, None, s\<lparr>written := written s @ p, budget := Some (k - length p)\<rparr>)
          else (k, Some ErrSink, s\<lparr>written := written s @ take k p, budget := Some 0\<rparr>))"

definition Available :: "Writer \<Rightarrow> nat" where
  "Available b = wsize b - length (pending b)"

definition Buffered :: "Writer \<Rightarrow> nat" where
  "Buffered b = length (pending b)"

definition Flush :: "Writer \<Rightarrow> error option \<times> Writer" where
  "Flush b =
     (if werr b \<noteq> None then (werr b, b)
      else if Buffered b = 0 then (None, b)
      else
        (case sink_Write (wr b) (pending b) of
           (n, e, s) \<Rightarrow>
             let err = (if n < Buffered b \<and> e = None then Some ErrShortWrite else e) in
             if err \<noteq> None
             then (err, b\<lparr>pending := drop n (pending b), werr := err, wr := s\<rparr>)
             else (None, b\<lparr>pending := [], wr := s\<rparr>)))"

text \<open>
  The loop of \<^verbatim>\<open>Write\<close>: while \<open>p\<close> does not fit into the free space and no error is
  set, either write \<open>p\<close> to the sink directly (empty buffer) or fill the buffer and
  flush it. \<open>nn\<close> counts the bytes taken from \<open>p\<close>.
\<close>

function Write_loop :: "u8 list \<Rightarrow> nat \<Rightarrow> Writer \<Rightarrow> u8 list \<times> nat \<times> Writer" where
  "Write_loop p nn b =
     (if length p > Available b \<and> werr b = None then
        (if Buffered b = 0 then
           (case sink_Write (wr b) p of
              (n, e, s) \<Rightarrow> Write_loop (drop n p) (nn + n) (b\<lparr>werr := e, wr := s\<rparr>))
         else
           (let n = min (Available b) (length p);
                b1 = b\<lparr>pending := pending b @ take n p\<rparr>
            in Write_loop (drop n p) (nn + n) (snd (Flush b1))))
      else (p, nn, b))"
  by pat_completeness auto
termination
  by (relation "measure (\<lambda>(p, nn, b).
         if werr b \<noteq> None then 0 else 2 * length p + (if pending b = [] then 1 else 2))")
     (auto simp: Flush_def sink_Write_def Buffered_def Let_def split: option.splits if_splits)

text \<open>
  \<^verbatim>\<open>Write(p)\<close>: the loop, then the sticky error if one is set, else the rest of \<open>p\<close> is
  copied into the buffer. The result is the count, the error and the writer after it.
\<close>

definition Write :: "Writer \<Rightarrow> u8 list \<Rightarrow> nat \<times> error option \<times> Writer" where
  "Write b p =
     (case Write_loop p 0 b of
        (p', nn, b') \<Rightarrow>
          if werr b' \<noteq> None then (nn, werr b', b')
          else
            (let n = min (Available b') (length p')
             in (nn + n, None, b'\<lparr>pending := pending b' @ take n p'\<rparr>)))"

subsection \<open>Helpers of the codec\<close>

text \<open>\<^verbatim>\<open>u16ToBytes\<close>: low byte first.\<close>

definition u16ToBytes :: "u16 \<Rightarrow> u8 list" where
  "u16ToBytes v = [ucast (v AND 0xff), ucast (drop_bit 8 v)]"

text \<open>\<^verbatim>\<open>bytesToU16\<close> does not check the size of \<open>p\<close>: \<open>p[1]\<close> and \<open>p[0]\<close> can panic.\<close>

definition bytesToU16 :: "goslice \<Rightarrow> panic + u16" where
  "bytesToU16 p =
     (case index p 1 of
        Inl x \<Rightarrow> Inl x
      | Inr p1 \<Rightarrow>
          (case index p 0 of
             Inl x \<Rightarrow> Inl x
           | Inr p0 \<Rightarrow> Inr (push_bit 8 (ucast p1) OR ucast p0)))"

text \<open>
  \<^verbatim>\<open>newPacketFromBytes\<close>: a packet with the header fields \<open>b[1]\<close> to \<open>b[4]\<close>, payload and
  checksum at their zero values, and the payload length \<open>int(b[0])\<close>.
\<close>

definition newPacketFromBytes :: "goslice \<Rightarrow> panic + (Packet \<times> nat)" where
  "newPacketFromBytes b =
     (case index b 1 of Inl x \<Rightarrow> Inl x | Inr b1 \<Rightarrow>
      case index b 2 of Inl x \<Rightarrow> Inl x | Inr b2 \<Rightarrow>
      case index b 3 of Inl x \<Rightarrow> Inl x | Inr b3 \<Rightarrow>
      case index b 4 of Inl x \<Rightarrow> Inl x | Inr b4 \<Rightarrow>
      case index b 0 of Inl x \<Rightarrow> Inl x | Inr b0 \<Rightarrow>
        Inr (\<lparr>SeqID = b1, SysID = b2, CompID = b3, MsgID = b4,
              Payload = [], Checksum = 0\<rparr>, unat b0))"

text \<open>\<^verbatim>\<open>writeAndCheck\<close>: the write's error, or \<^verbatim>\<open>io.ErrShortWrite\<close> on a short count.\<close>

definition writeAndCheck :: "Encoder \<Rightarrow> u8 list \<Rightarrow> error option \<times> Encoder" where
  "writeAndCheck enc p =
     (case Write (bw enc) p of
        (n, err, w) \<Rightarrow>
          if err = None \<and> n \<noteq> length p then (Some ErrShortWrite, enc\<lparr>bw := w\<rparr>)
          else (err, enc\<lparr>bw := w\<rparr>))"

subsection \<open>Decoder\<close>

text \<open>
  The result of a decode: the packet pointer (\<open>None\<close> is \<^verbatim>\<open>nil\<close>), the error (\<open>None\<close> is
  \<^verbatim>\<open>nil\<close>) and the decoder after the call; \<open>Inl\<close> when the call panics.
\<close>

type_synonym decoded = "(Packet option \<times> error option) \<times> Decoder"

text \<open>The first loop of \<^verbatim>\<open>Decode\<close>: discard bytes until the start byte.\<close>

function discardToStart :: "u8 list \<Rightarrow> error option \<times> u8 list" where
  "discardToStart r =
     (case ReadByte r of
        (Inl err, r') \<Rightarrow> (Some err, r')
      | (Inr c, r') \<Rightarrow> if c = startByte then (None, r') else discardToStart r')"
  by pat_completeness auto
termination
  by (relation "measure length") (auto simp: ReadByte_def split: list.splits)

definition Decode :: "Decoder \<Rightarrow> panic + decoded" where
  "Decode dec =
     (case discardToStart (br dec) of
        (Some err, r1) \<Rightarrow> Inr ((None, Some err), dec\<lparr>br := r1\<rparr>)
      | (None, r1) \<Rightarrow>
     (case ReadFull r1 5 of
        (hdr, Some err, r2) \<Rightarrow> Inr ((None, Some err), dec\<lparr>br := r2\<rparr>)
      | (hdr, None, r2) \<Rightarrow>
     (case newPacketFromBytes (slice_of hdr) of
        Inl x \<Rightarrow> Inl x
      | Inr (p, payloadLen) \<Rightarrow>
     (let crc = x25_Write x25_New hdr in
     (case ReadFull r2 (payloadLen + numChecksumBytes) of
        (buf, Some err, r3) \<Rightarrow> Inr ((Some p, Some err), dec\<lparr>br := r3\<rparr>)
      | (buf, None, r3) \<Rightarrow>
     (case slice_to (slice_of buf) payloadLen of
        Inl x \<Rightarrow> Inl x
      | Inr pl \<Rightarrow>
     (let p = p\<lparr>Payload := bytes pl\<rparr>;
          crc = x25_Write crc (Payload p)
      in
     (case findCrcX (Dialects dec) (MsgID p) of
        Inl err \<Rightarrow> Inr ((Some p, Some err), dec\<lparr>br := r3\<rparr>)
      | Inr crcx \<Rightarrow>
     (let crc = x25_WriteByte crc crcx in
     (case slice_from (slice_of buf) payloadLen of
        Inl x \<Rightarrow> Inl x
      | Inr rest \<Rightarrow>
     (case bytesToU16 rest of
        Inl x \<Rightarrow> Inl x
      | Inr v \<Rightarrow>
     (let p = p\<lparr>Checksum := v\<rparr> in
        if Checksum p \<noteq> x25_Sum16 crc
        then Inr ((Some p, Some ErrCrcFail), dec\<lparr>br := r3\<rparr>)
        else Inr ((Some p, None), dec\<lparr>br := r3, CurrSeqID := SeqID p\<rparr>)))))))))))))"

definition DecodeBytes :: "Decoder \<Rightarrow> goslice \<Rightarrow> panic + decoded" where
  "DecodeBytes dec b =
     (if slice_len b < hdrLen then Inr ((None, Some ErrInvalidHeader), dec)
      else
     (case index b 0 of
        Inl x \<Rightarrow> Inl x
      | Inr b0 \<Rightarrow>
     (if b0 \<noteq> startByte then Inr ((None, Some ErrInvalidHeader), dec)
      else
     (case slice_from b 1 of
        Inl x \<Rightarrow> Inl x
      | Inr b1 \<Rightarrow>
     (case newPacketFromBytes b1 of
        Inl x \<Rightarrow> Inl x
      | Inr (p, payloadLen) \<Rightarrow>
     (case slice_range b hdrLen (hdrLen + payloadLen) of
        Inl x \<Rightarrow> Inl x
      | Inr pl \<Rightarrow>
     (let p = p\<lparr>Payload := bytes pl\<rparr> in
     (case slice_range b 1 (hdrLen + payloadLen) of
        Inl x \<Rightarrow> Inl x
      | Inr covered \<Rightarrow>
     (let crc = x25_Write x25_New (bytes covered) in
     (case findCrcX (Dialects dec) (MsgID p) of
        Inl err \<Rightarrow> Inr ((Some p, Some err), dec)
      | Inr crcx \<Rightarrow>
     (let crc = x25_WriteByte crc crcx in
     (case slice_from b (hdrLen + payloadLen) of
        Inl x \<Rightarrow> Inl x
      | Inr rest \<Rightarrow>
     (case bytesToU16 rest of
        Inl x \<Rightarrow> Inl x
      | Inr v \<Rightarrow>
     (let p = p\<lparr>Checksum := v\<rparr> in
        if Checksum p \<noteq> x25_Sum16 crc
        then Inr ((Some p, Some ErrCrcFail), dec)
        else Inr ((Some p, None), dec\<lparr>CurrSeqID := SeqID p\<rparr>)))))))))))))))"

subsection \<open>Encoder\<close>

definition EncodePacket :: "Encoder \<Rightarrow> Packet \<Rightarrow> error option \<times> Encoder" where
  "EncodePacket enc p =
     (let crc = x25_New;
          hdr = [startByte, of_nat (length (Payload p)), CurrSeqID enc,
                 SysID p, CompID p, MsgID p]
      in
     (case writeAndCheck enc hdr of
        (Some err, enc1) \<Rightarrow> (Some err, enc1)
      | (None, enc1) \<Rightarrow>
     (let crc = x25_Write crc (drop 1 hdr) in
     (case writeAndCheck enc1 (Payload p) of
        (Some err, enc2) \<Rightarrow> (Some err, enc2)
      | (None, enc2) \<Rightarrow>
     (let crc = x25_Write crc (Payload p) in
     (case findCrcX (Dialects enc2) (MsgID p) of
        Inl err \<Rightarrow> (Some err, enc2)
      | Inr crcx \<Rightarrow>
     (let crc = x25_WriteByte crc crcx;
          crcBytes = u16ToBytes (x25_Sum16 crc)
      in
     (case writeAndCheck enc2 crcBytes of
        (Some err, enc3) \<Rightarrow> (Some err, enc3)
      | (None, enc3) \<Rightarrow>
     (case Flush (bw enc3) of
        (err, w) \<Rightarrow>
          (err, enc3\<lparr>bw := w,
                     CurrSeqID := (if err = None then CurrSeqID enc3 + 1
                                   else CurrSeqID enc3)\<rparr>))))))))))"

subsection \<open>Constructors\<close>

text \<open>
  \<^verbatim>\<open>NewDecoder\<close> and \<^verbatim>\<open>NewEncoder\<close> register the one built-in dialect
  \<^verbatim>\<open>DialectCommon\<close>, a generated table that is not among the sources and is a parameter
  here. \<^verbatim>\<open>NewEncoder\<close> keeps a \<^verbatim>\<open>*bufio.Writer\<close> it is given as it is and wraps any
  other writer in a new one, whose buffer has the library's default size and is empty.
\<close>

datatype io_Writer = PlainWriter Sink | BufioWriter Writer

definition NewDecoder :: "Dialect \<Rightarrow> u8 list \<Rightarrow> Decoder" where
  "NewDecoder DialectCommon r = \<lparr>CurrSeqID = 0, Dialects = [DialectCommon], br = r\<rparr>"

definition NewEncoder :: "Dialect \<Rightarrow> io_Writer \<Rightarrow> Encoder" where
  "NewEncoder DialectCommon w =
     \<lparr>CurrSeqID = 0, Dialects = [DialectCommon],
      bw = (case w of
              BufioWriter v \<Rightarrow> v
            | PlainWriter s \<Rightarrow> \<lparr>wsize = 4096, pending = [], werr = None, wr = s\<rparr>)\<rparr>"

subsection \<open>The wire format as the specification words it\<close>

text \<open>
  The specification's checksum input order: the header without its start marker (length,
  sequence, system, component, message id), then the payload, then the crc-extra byte.
\<close>

definition spec_checksum :: "u8 list \<Rightarrow> u8 list \<Rightarrow> u8 \<Rightarrow> u16" where
  "spec_checksum hdr5 payload crcx = x25_Sum16 (x25_Write x25_New (hdr5 @ payload @ [crcx]))"

text \<open>
  The specification's wire format: start marker \<open>0xFE\<close>, payload length, sequence id,
  system id, component id, message id, the payload, and the checksum low byte first.
\<close>

definition spec_frame :: "u8 \<Rightarrow> u8 \<Rightarrow> u8 \<Rightarrow> u8 \<Rightarrow> u8 list \<Rightarrow> u8 \<Rightarrow> u8 list" where
  "spec_frame sq sy co ms payload crcx =
     (let hdr5 = [of_nat (length payload), sq, sy, co, ms];
          crc = spec_checksum hdr5 payload crcx
      in 0xfe # hdr5 @ payload @ [ucast (crc AND 0xff), ucast (drop_bit 8 crc)])"

subsection \<open>Consecutive encodes\<close>

text \<open>
  A caller that encodes a list of packets on one encoder with consecutive calls of
  \<^verbatim>\<open>EncodePacket\<close> and stops at the first error.
\<close>

fun EncodePackets :: "Encoder \<Rightarrow> Packet list \<Rightarrow> error option \<times> Encoder" where
  "EncodePackets enc [] = (None, enc)"
| "EncodePackets enc (p # ps) =
     (case EncodePacket enc p of
        (Some err, enc') \<Rightarrow> (Some err, enc')
      | (None, enc') \<Rightarrow> EncodePackets enc' ps)"

text \<open>
  The frame of the wire format for packet \<open>p\<close> under sequence id \<open>sq\<close>, with the
  crc-extra byte the registry gives for the packet's message id.
\<close>

definition frame_of :: "DialectSlice \<Rightarrow> u8 \<Rightarrow> Packet \<Rightarrow> u8 list" where
  "frame_of ds sq p =
     (case findCrcX ds (MsgID p) of
        Inl err \<Rightarrow> []
      | Inr crcx \<Rightarrow> spec_frame sq (SysID p) (CompID p) (MsgID p) (Payload p) crcx)"

section \<open>Properties\<close>

subsection \<open>Reading a frame from a stream\<close>

declare discardToStart.simps [simp del]
declare Write_loop.simps [simp del]

lemma discardToStart_Nil: "discardToStart [] = (Some EOF, [])"
  by (subst discardToStart.simps) (simp add: ReadByte_def)

lemma discardToStart_Cons:
  "discardToStart (c # cs) = (if c = startByte then (None, cs) else discardToStart cs)"
  by (subst discardToStart.simps) (simp add: ReadByte_def)

lemma discardToStart_garbage:
  "startByte \<notin> set g \<Longrightarrow> discardToStart (g @ startByte # r) = (None, r)"
  by (induction g) (auto simp: discardToStart_Cons)

lemma discardToStart_none:
  "startByte \<notin> set r \<Longrightarrow> discardToStart r = (Some EOF, [])"
  by (induction r) (auto simp: discardToStart_Cons discardToStart_Nil)

lemma ReadFull_append: "length xs = n \<Longrightarrow> ReadFull (xs @ r) n = (xs, None, r)"
  by (simp add: ReadFull_def)

lemma newPacketFromBytes_hdr:
  "newPacketFromBytes \<lparr>bytes = L # sq # sy # co # ms # xs, beyond = sp\<rparr> =
     Inr (\<lparr>SeqID = sq, SysID = sy, CompID = co, MsgID = ms, Payload = [], Checksum = 0\<rparr>, unat L)"
  by (simp add: newPacketFromBytes_def index_def slice_len_def)

lemma bytesToU16_pair:
  "bytesToU16 \<lparr>bytes = c0 # c1 # xs, beyond = sp\<rparr> = Inr (push_bit 8 (ucast c1) OR ucast c0)"
  by (simp add: bytesToU16_def index_def slice_len_def)

lemma x25_Write_append: "x25_Write crc (xs @ ys) = x25_Write (x25_Write crc xs) ys"
  by (simp add: x25_Write_def)

lemma x25_Write_snoc: "x25_Write crc (xs @ [x]) = x25_WriteByte (x25_Write crc xs) x"
  by (simp add: x25_Write_def)

lemma low_byte_mask: "(0xff :: u16) = mask 8"
  by (simp add: mask_eq_exp_minus_1)

lemma u16_roundtrip:
  "push_bit 8 (ucast (ucast (drop_bit 8 v) :: u8)) OR ucast (ucast (v AND 0xff) :: u8) = (v :: u16)"
  unfolding low_byte_mask
  by (rule bit_word_eqI) (auto simp: bit_simps)

subsection \<open>Checksums and frames of the examples\<close>

lemmas x25_eval =
  x25_Sum16_def x25_Write_def x25_WriteByte_def x25_New_def x25_table_def x25_round_def

lemma example_sums:
  "x25_Sum16 (x25_Write x25_New [0, 7, 1, 1, 0, 50]) = 27738"
  "x25_Sum16 (x25_Write x25_New [2, 7, 1, 1, 0, 0xde, 0xad, 50]) = 11670"
  "x25_Sum16 (x25_Write x25_New [0, 254, 1, 1, 0, 50]) = 41624"
  "x25_Sum16 (x25_Write x25_New [1, 255, 2, 1, 0, 9, 50]) = 57034"
  "x25_Sum16 (x25_Write x25_New [0, 0, 3, 1, 0, 50]) = 26096"
  by (simp_all add: x25_eval)

lemma example_checksums:
  "spec_checksum [0, 7, 1, 1, 0] [] 50 = 27738"
  "spec_checksum [2, 7, 1, 1, 0] [0xde, 0xad] 50 = 11670"
  "spec_checksum [0, 254, 1, 1, 0] [] 50 = 41624"
  "spec_checksum [1, 255, 2, 1, 0] [9] 50 = 57034"
  "spec_checksum [0, 0, 3, 1, 0] [] 50 = 26096"
  by (simp_all add: spec_checksum_def example_sums)

lemma example_frames:
  "spec_frame 7 1 1 0 [] 50 = [0xfe, 0, 7, 1, 1, 0, 90, 108]"
  "spec_frame 7 1 1 0 [0xde, 0xad] 50 = [0xfe, 2, 7, 1, 1, 0, 0xde, 0xad, 150, 45]"
  "spec_frame 254 1 1 0 [] 50 = [0xfe, 0, 254, 1, 1, 0, 152, 162]"
  "spec_frame 255 2 1 0 [9] 50 = [0xfe, 1, 255, 2, 1, 0, 9, 202, 222]"
  "spec_frame 0 3 1 0 [] 50 = [0xfe, 0, 0, 3, 1, 0, 240, 101]"
  by (simp_all add: spec_frame_def Let_def example_checksums)

subsection \<open>Slices, checksum bytes\<close>

lemma slice_to_of:
  "slice_to (slice_of (xs @ ys)) (length xs) = Inr \<lparr>bytes = xs, beyond = ys\<rparr>"
  by (simp add: slice_to_def slice_range_def slice_of_def slice_cap_def)

lemma slice_from_of:
  "slice_from (slice_of (xs @ ys)) (length xs) = Inr \<lparr>bytes = ys, beyond = []\<rparr>"
  by (simp add: slice_from_def slice_range_def slice_of_def slice_cap_def slice_len_def)

lemma Decode_frame:
  assumes g: "startByte \<notin> set g"
    and len: "length pl = unat L"
    and src: "br dec = g @ startByte # [L, sq, sy, co, ms] @ pl @ [c0, c1] @ r"
  shows "Decode dec =
     (case findCrcX (Dialects dec) ms of
        Inl err \<Rightarrow>
          Inr ((Some \<lparr>SeqID = sq, SysID = sy, CompID = co, MsgID = ms,
                      Payload = pl, Checksum = 0\<rparr>, Some err), dec\<lparr>br := r\<rparr>)
      | Inr crcx \<Rightarrow>
          (let p = \<lparr>SeqID = sq, SysID = sy, CompID = co, MsgID = ms,
                    Payload = pl, Checksum = push_bit 8 (ucast c1) OR ucast c0\<rparr>
           in if Checksum p \<noteq> x25_Sum16 (x25_Write x25_New ([L, sq, sy, co, ms] @ pl @ [crcx]))
              then Inr ((Some p, Some ErrCrcFail), dec\<lparr>br := r\<rparr>)
              else Inr ((Some p, None), dec\<lparr>br := r, CurrSeqID := sq\<rparr>)))"
proof -
  have d: "discardToStart (br dec) = (None, L # sq # sy # co # ms # pl @ c0 # c1 # r)"
    unfolding src using discardToStart_garbage [OF g] by simp
  have h: "ReadFull (L # sq # sy # co # ms # pl @ c0 # c1 # r) 5 =
      ([L, sq, sy, co, ms], None, pl @ c0 # c1 # r)"
    using ReadFull_append [of "[L, sq, sy, co, ms]" 5] by simp
  have n: "newPacketFromBytes (slice_of [L, sq, sy, co, ms]) =
      Inr (\<lparr>SeqID = sq, SysID = sy, CompID = co, MsgID = ms, Payload = [], Checksum = 0\<rparr>, unat L)"
    unfolding slice_of_def by (rule newPacketFromBytes_hdr)
  have b: "ReadFull (pl @ c0 # c1 # r) (unat L + numChecksumBytes) = (pl @ [c0, c1], None, r)"
    using ReadFull_append [of "pl @ [c0, c1]" "unat L + numChecksumBytes" r] len
    by (simp add: numChecksumBytes_def)
  have s1: "slice_to (slice_of (pl @ [c0, c1])) (unat L) = Inr \<lparr>bytes = pl, beyond = [c0, c1]\<rparr>"
    using slice_to_of [of pl "[c0, c1]"] len by simp
  have s2: "slice_from (slice_of (pl @ [c0, c1])) (unat L) = Inr \<lparr>bytes = [c0, c1], beyond = []\<rparr>"
    using slice_from_of [of pl "[c0, c1]"] len by simp
  have c: "bytesToU16 \<lparr>bytes = [c0, c1], beyond = []\<rparr> = Inr (push_bit 8 (ucast c1) OR ucast c0)"
    by (rule bytesToU16_pair)
  show ?thesis
    unfolding Decode_def d
    by (simp add: h n b s1 s2 c Let_def x25_Write_def split: sum.splits)
qed

lemma findCrcX_absent:
  "(\<forall>d \<in> set ds. map_of d ms = None) \<Longrightarrow> findCrcX ds ms = Inl ErrUnknownMsgID"
  by (induction ds) simp_all

lemma findCrcX_error: "findCrcX ds ms = Inl e \<Longrightarrow> e = ErrUnknownMsgID"
  by (induction ds) (simp_all split: option.splits)

subsection \<open>Unknown message id on decode\<close>

text \<open>
  Claim C6. A well-formed frame at the head of the stream (start marker, the five header
  bytes, as many payload bytes as the length byte says, two checksum bytes) whose message
  id no registered dialect defines makes \<open>Decode\<close> fail with \<open>ErrUnknownMsgID\<close>. The
  packet returned has the header fields and the payload of the frame; its checksum field
  is still zero and the result is the same for every pair of checksum bytes, so no
  checksum has been compared; the decoder's \<open>CurrSeqID\<close> is unchanged.
\<close>

theorem Decode_unknown_message:
  assumes "\<forall>d \<in> set (Dialects dec). map_of d ms = None"
    and "length pl = unat L"
    and "br dec = startByte # [L, sq, sy, co, ms] @ pl @ [c0, c1] @ r"
  shows "Decode dec =
     Inr ((Some \<lparr>SeqID = sq, SysID = sy, CompID = co, MsgID = ms,
                 Payload = pl, Checksum = 0\<rparr>, Some ErrUnknownMsgID), dec\<lparr>br := r\<rparr>)"
proof -
  have "findCrcX (Dialects dec) ms = Inl ErrUnknownMsgID"
    using assms(1) by (rule findCrcX_absent)
  moreover have "br dec = [] @ startByte # [L, sq, sy, co, ms] @ pl @ [c0, c1] @ r"
    using assms(3) by simp
  ultimately show ?thesis
    using Decode_frame [of "[]" pl L dec sq sy co ms c0 c1 r] assms(2) by simp
qed

theorem Decode_unknown_message_witness:
  "Decode \<lparr>CurrSeqID = 3, Dialects = [[(0, 50)]],
           br = [0xfe, 1, 7, 1, 1, 9, 0xaa, 0x12, 0x34, 0x56]\<rparr> =
     Inr ((Some \<lparr>SeqID = 7, SysID = 1, CompID = 1, MsgID = 9,
                 Payload = [0xaa], Checksum = 0\<rparr>, Some ErrUnknownMsgID),
          \<lparr>CurrSeqID = 3, Dialects = [[(0, 50)]], br = [0x56]\<rparr>)"
  using Decode_unknown_message [where dec = "\<lparr>CurrSeqID = 3, Dialects = [[(0, 50)]],
           br = [0xfe, 1, 7, 1, 1, 9, 0xaa, 0x12, 0x34, 0x56]\<rparr>" and ms = 9 and pl = "[0xaa]"
           and L = 1 and sq = 7 and sy = 1 and co = 1 and ?c0.0 = "0x12" and ?c1.0 = "0x34"
           and r = "[0x56]"]
  by (simp add: startByte_def)

subsection \<open>Checksum verdict on decode\<close>

text \<open>
  Claim C7. For a frame that has been read in full and whose message id the registry
  resolves to \<open>crcx\<close>: when the transmitted checksum differs from the computed one,
  \<open>Decode\<close> returns the parsed packet with \<open>ErrCrcFail\<close> and the decoder keeps its
  \<open>CurrSeqID\<close>; when they agree, it returns the packet with no error and sets
  \<open>CurrSeqID\<close> to the packet's sequence id.
\<close>

theorem Decode_checksum_verdict:
  assumes "findCrcX (Dialects dec) ms = Inr crcx"
    and "length pl = unat L"
    and "br dec = startByte # [L, sq, sy, co, ms] @ pl @ [c0, c1] @ r"
    and "p = \<lparr>SeqID = sq, SysID = sy, CompID = co, MsgID = ms, Payload = pl,
              Checksum = push_bit 8 (ucast c1) OR ucast c0\<rparr>"
    and "computed =
           x25_Sum16 (x25_WriteByte (x25_Write (x25_Write x25_New [L, sq, sy, co, ms]) pl) crcx)"
  shows "(Checksum p \<noteq> computed \<longrightarrow>
            Decode dec = Inr ((Some p, Some ErrCrcFail), dec\<lparr>br := r\<rparr>)) \<and>
         (Checksum p = computed \<longrightarrow>
            Decode dec = Inr ((Some p, None), dec\<lparr>br := r, CurrSeqID := SeqID p\<rparr>))"
proof -
  have "br dec = [] @ startByte # [L, sq, sy, co, ms] @ pl @ [c0, c1] @ r"
    using assms(3) by simp
  then show ?thesis
    using Decode_frame [of "[]" pl L dec sq sy co ms c0 c1 r] assms(1,2,4,5)
    by (simp add: x25_Write_def)
qed

theorem Decode_checksum_verdict_witness:
  "Decode \<lparr>CurrSeqID = 3, Dialects = [[(0, 50)]], br = [0xfe, 0, 7, 1, 1, 0, 90, 108]\<rparr> =
     Inr ((Some \<lparr>SeqID = 7, SysID = 1, CompID = 1, MsgID = 0, Payload = [],
                 Checksum = 27738\<rparr>, None),
          \<lparr>CurrSeqID = 7, Dialects = [[(0, 50)]], br = []\<rparr>) \<and>
   Decode \<lparr>CurrSeqID = 3, Dialects = [[(0, 50)]], br = [0xfe, 0, 7, 1, 1, 0, 91, 108]\<rparr> =
     Inr ((Some \<lparr>SeqID = 7, SysID = 1, CompID = 1, MsgID = 0, Payload = [],
                 Checksum = 27739\<rparr>, Some ErrCrcFail),
          \<lparr>CurrSeqID = 3, Dialects = [[(0, 50)]], br = []\<rparr>)"
  using Decode_checksum_verdict [where dec = "\<lparr>CurrSeqID = 3, Dialects = [[(0, 50)]],
           br = [0xfe, 0, 7, 1, 1, 0, 90, 108]\<rparr>" and ms = 0 and pl = "[]"
           and L = 0 and sq = 7 and sy = 1 and co = 1 and ?c0.0 = 90 and ?c1.0 = 108
           and r = "[]" and crcx = 50, OF _ _ _ refl refl]
    Decode_checksum_verdict [where dec = "\<lparr>CurrSeqID = 3, Dialects = [[(0, 50)]],
           br = [0xfe, 0, 7, 1, 1, 0, 91, 108]\<rparr>" and ms = 0 and pl = "[]"
           and L = 0 and sq = 7 and sy = 1 and co = 1 and ?c0.0 = 91 and ?c1.0 = 108
           and r = "[]" and crcx = 50, OF _ _ _ refl refl]
  by (simp add: startByte_def x25_Sum16_def x25_Write_def x25_WriteByte_def x25_New_def
                x25_table_def x25_round_def)

lemma of_nat_len_u8: "length pl \<le> 255 \<Longrightarrow> unat (of_nat (length pl) :: u8) = length pl"
  by (simp add: unat_of_nat)

lemma Decode_spec_frame:
  assumes g: "startByte \<notin> set g"
    and len: "length pl \<le> 255"
    and x: "findCrcX (Dialects dec) ms = Inr crcx"
    and src: "br dec = g @ spec_frame sq sy co ms pl crcx @ r"
  shows "Decode dec =
     Inr ((Some \<lparr>SeqID = sq, SysID = sy, CompID = co, MsgID = ms, Payload = pl,
                 Checksum = spec_checksum [of_nat (length pl), sq, sy, co, ms] pl crcx\<rparr>, None),
          dec\<lparr>br := r, CurrSeqID := sq\<rparr>)"
proof -
  define crc where "crc = spec_checksum [of_nat (length pl), sq, sy, co, ms] pl crcx"
  have l: "length pl = unat (of_nat (length pl) :: u8)"
    using len by (simp add: of_nat_len_u8)
  have "br dec = g @ startByte # [of_nat (length pl), sq, sy, co, ms] @ pl @
          [ucast (crc AND 0xff), ucast (drop_bit 8 crc)] @ r"
    unfolding src by (simp add: spec_frame_def Let_def crc_def startByte_def)
  moreover have "x25_Sum16 (x25_Write x25_New
      ([of_nat (length pl), sq, sy, co, ms] @ pl @ [crcx])) = crc"
    by (simp add: crc_def spec_checksum_def)
  ultimately show ?thesis
    using Decode_frame [OF g l, of dec sq sy co ms _ _ r] x
    by (simp add: u16_roundtrip crc_def [symmetric] del: append.simps)
qed

subsection \<open>Resynchronization\<close>

text \<open>
  Claim C8. When the stream holds bytes none of which is the start byte \<open>0xFE\<close>, followed
  by exactly one valid frame (a frame of the wire format with at most 255 payload bytes,
  a message id the registry resolves and the checksum of the specification), one call of
  \<open>Decode\<close> discards the leading bytes, returns the frame's packet with no error and
  leaves nothing unread. When the stream holds no start byte at all, \<open>Decode\<close> returns
  \<open>EOF\<close> and no packet.
\<close>

theorem Decode_resynchronizes:
  "(startByte \<notin> set g \<and> length pl \<le> 255 \<and> findCrcX (Dialects dec) ms = Inr crcx \<and>
    br dec = g @ spec_frame sq sy co ms pl crcx
    \<longrightarrow> Decode dec =
          Inr ((Some \<lparr>SeqID = sq, SysID = sy, CompID = co, MsgID = ms, Payload = pl,
                      Checksum = spec_checksum [of_nat (length pl), sq, sy, co, ms] pl crcx\<rparr>,
                None),
               dec\<lparr>br := [], CurrSeqID := sq\<rparr>)) \<and>
   (startByte \<notin> set (br dec)
    \<longrightarrow> Decode dec = Inr ((None, Some EOF), dec\<lparr>br := []\<rparr>))"
proof (intro conjI impI)
  assume "startByte \<notin> set g \<and> length pl \<le> 255 \<and> findCrcX (Dialects dec) ms = Inr crcx \<and>
    br dec = g @ spec_frame sq sy co ms pl crcx"
  then show "Decode dec =
          Inr ((Some \<lparr>SeqID = sq, SysID = sy, CompID = co, MsgID = ms, Payload = pl,
                      Checksum = spec_checksum [of_nat (length pl), sq, sy, co, ms] pl crcx\<rparr>,
                None),
               dec\<lparr>br := [], CurrSeqID := sq\<rparr>)"
    using Decode_spec_frame [of g pl dec ms crcx sq sy co "[]"] by simp
next
  assume "startByte \<notin> set (br dec)"
  then have "discardToStart (br dec) = (Some EOF, [])"
    by (rule discardToStart_none)
  then show "Decode dec = Inr ((None, Some EOF), dec\<lparr>br := []\<rparr>)"
    by (simp add: Decode_def)
qed

theorem Decode_resynchronizes_witness:
  "Decode \<lparr>CurrSeqID = 3, Dialects = [[(0, 50)]],
           br = [0x00, 0x11, 0xff, 0xfe, 0, 7, 1, 1, 0, 90, 108]\<rparr> =
     Inr ((Some \<lparr>SeqID = 7, SysID = 1, CompID = 1, MsgID = 0, Payload = [],
                 Checksum = 27738\<rparr>, None),
          \<lparr>CurrSeqID = 7, Dialects = [[(0, 50)]], br = []\<rparr>) \<and>
   Decode \<lparr>CurrSeqID = 3, Dialects = [[(0, 50)]], br = [0x00, 0x11, 0xff]\<rparr> =
     Inr ((None, Some EOF), \<lparr>CurrSeqID = 3, Dialects = [[(0, 50)]], br = []\<rparr>)"
proof -
  note f = example_frames(1)
  note c = example_checksums(1)
  show ?thesis
  using Decode_resynchronizes [where dec = "\<lparr>CurrSeqID = 3, Dialects = [[(0, 50)]],
             br = [0x00, 0x11, 0xff, 0xfe, 0, 7, 1, 1, 0, 90, 108]\<rparr>" and g = "[0x00, 0x11, 0xff]"
             and ms = 0 and pl = "[]" and sq = 7 and sy = 1 and co = 1 and crcx = 50,
             THEN conjunct1]
      Decode_resynchronizes [where dec = "\<lparr>CurrSeqID = 3, Dialects = [[(0, 50)]],
             br = [0x00, 0x11, 0xff]\<rparr>", THEN conjunct2]
    by (simp add: f c startByte_def)
qed

subsection \<open>Decoding a buffer that holds a whole frame\<close>

lemma drop_hdr: "drop (6 + n) (a # b # c # d # e # f # xs) = drop n xs"
  by (simp add: eval_nat_numeral)

lemma take_hdr: "take (5 + n) (a # b # c # d # e # xs) = a # b # c # d # e # take n xs"
  by (simp add: eval_nat_numeral)

lemma x25_Write_single: "x25_Write crc [x] = x25_WriteByte crc x"
  by (simp add: x25_Write_def)

lemma DecodeBytes_frame:
  assumes len: "length pl = unat L"
  shows "DecodeBytes dec \<lparr>bytes = startByte # [L, sq, sy, co, ms] @ pl @ [c0, c1] @ trailing,
                          beyond = sp\<rparr> =
     (case findCrcX (Dialects dec) ms of
        Inl err \<Rightarrow>
          Inr ((Some \<lparr>SeqID = sq, SysID = sy, CompID = co, MsgID = ms,
                      Payload = pl, Checksum = 0\<rparr>, Some err), dec)
      | Inr crcx \<Rightarrow>
          (let p = \<lparr>SeqID = sq, SysID = sy, CompID = co, MsgID = ms,
                    Payload = pl, Checksum = push_bit 8 (ucast c1) OR ucast c0\<rparr>
           in if Checksum p \<noteq> x25_Sum16 (x25_Write x25_New ([L, sq, sy, co, ms] @ pl @ [crcx]))
              then Inr ((Some p, Some ErrCrcFail), dec)
              else Inr ((Some p, None), dec\<lparr>CurrSeqID := sq\<rparr>)))"
proof -
  let ?b = "\<lparr>bytes = startByte # [L, sq, sy, co, ms] @ pl @ [c0, c1] @ trailing, beyond = sp\<rparr>"
  have l: "\<not> slice_len ?b < hdrLen"
    by (simp add: slice_len_def hdrLen_def)
  have i0: "index ?b 0 = Inr startByte"
    by (simp add: index_def slice_len_def)
  have s1: "slice_from ?b 1 =
      Inr \<lparr>bytes = [L, sq, sy, co, ms] @ pl @ [c0, c1] @ trailing, beyond = sp\<rparr>"
    by (simp add: slice_from_def slice_range_def slice_len_def slice_cap_def)
  have n: "newPacketFromBytes \<lparr>bytes = [L, sq, sy, co, ms] @ pl @ [c0, c1] @ trailing, beyond = sp\<rparr> =
      Inr (\<lparr>SeqID = sq, SysID = sy, CompID = co, MsgID = ms, Payload = [], Checksum = 0\<rparr>, unat L)"
    using newPacketFromBytes_hdr [of L sq sy co ms "pl @ [c0, c1] @ trailing" sp] by simp
  have s2: "slice_range ?b hdrLen (hdrLen + unat L) =
      Inr \<lparr>bytes = pl, beyond = [c0, c1] @ trailing @ sp\<rparr>"
    using len by (simp add: slice_range_def slice_cap_def hdrLen_def drop_hdr take_hdr)
  have s3: "slice_range ?b 1 (hdrLen + unat L) =
      Inr \<lparr>bytes = [L, sq, sy, co, ms] @ pl, beyond = [c0, c1] @ trailing @ sp\<rparr>"
    using len by (simp add: slice_range_def slice_cap_def hdrLen_def drop_hdr take_hdr)
  have s4: "slice_from ?b (hdrLen + unat L) = Inr \<lparr>bytes = [c0, c1] @ trailing, beyond = sp\<rparr>"
    using len by (simp add: slice_from_def slice_range_def slice_len_def slice_cap_def hdrLen_def drop_hdr)
  have c: "bytesToU16 \<lparr>bytes = [c0, c1] @ trailing, beyond = sp\<rparr> =
      Inr (push_bit 8 (ucast c1) OR ucast c0)"
    using bytesToU16_pair [of c0 c1 trailing sp] by simp
  show ?thesis
  proof (cases "findCrcX (Dialects dec) ms")
    case (Inl e)
    show ?thesis
      unfolding DecodeBytes_def
      by (simp only: l i0 s1 n s2 s3 s4 c Inl if_False if_True sum.case prod.case Let_def
            simp_thms Packet.simps goslice.simps)
  next
    case (Inr x)
    show ?thesis
      unfolding DecodeBytes_def
      by (simp only: l i0 s1 n s2 s3 s4 c Inr if_False if_True sum.case prod.case Let_def
            simp_thms Packet.simps goslice.simps x25_Write_append x25_Write_single)
  qed
qed

text \<open>
  Claim C10. A buffer that begins with one complete frame (start marker, header with
  length byte \<open>L\<close>, \<open>L\<close> payload bytes, two checksum bytes) and goes on with any
  trailing bytes, in a backing array of any capacity, is decoded by \<open>DecodeBytes\<close> exactly
  as the buffer that ends with the frame: the trailing bytes are ignored. When the
  registry resolves the message id, the checksum read is the two bytes right after the
  payload, low byte first.
\<close>

theorem DecodeBytes_ignores_trailing:
  assumes "length pl = unat L"
  shows "DecodeBytes dec \<lparr>bytes = startByte # [L, sq, sy, co, ms] @ pl @ [c0, c1] @ trailing,
                          beyond = sp\<rparr> =
         DecodeBytes dec (slice_of (startByte # [L, sq, sy, co, ms] @ pl @ [c0, c1])) \<and>
         (\<forall>crcx. findCrcX (Dialects dec) ms = Inr crcx \<longrightarrow>
            (\<exists>err dec'.
               DecodeBytes dec \<lparr>bytes = startByte # [L, sq, sy, co, ms] @ pl @ [c0, c1] @ trailing,
                                beyond = sp\<rparr> =
               Inr ((Some \<lparr>SeqID = sq, SysID = sy, CompID = co, MsgID = ms, Payload = pl,
                           Checksum = push_bit 8 (ucast c1) OR ucast c0\<rparr>, err), dec')))"
proof -
  have "DecodeBytes dec (slice_of (startByte # [L, sq, sy, co, ms] @ pl @ [c0, c1])) =
        DecodeBytes dec \<lparr>bytes = startByte # [L, sq, sy, co, ms] @ pl @ [c0, c1] @ [],
                          beyond = []\<rparr>"
    by (simp add: slice_of_def)
  then have "DecodeBytes dec \<lparr>bytes = startByte # [L, sq, sy, co, ms] @ pl @ [c0, c1] @ trailing,
                          beyond = sp\<rparr> =
         DecodeBytes dec (slice_of (startByte # [L, sq, sy, co, ms] @ pl @ [c0, c1]))"
    by (simp only: DecodeBytes_frame [OF assms])
  moreover have "\<forall>crcx. findCrcX (Dialects dec) ms = Inr crcx \<longrightarrow>
            (\<exists>err dec'.
               DecodeBytes dec \<lparr>bytes = startByte # [L, sq, sy, co, ms] @ pl @ [c0, c1] @ trailing,
                                beyond = sp\<rparr> =
               Inr ((Some \<lparr>SeqID = sq, SysID = sy, CompID = co, MsgID = ms, Payload = pl,
                           Checksum = push_bit 8 (ucast c1) OR ucast c0\<rparr>, err), dec'))"
    by (simp only: DecodeBytes_frame [OF assms]) (simp add: Let_def)
  ultimately show ?thesis by (rule conjI)
qed

theorem DecodeBytes_ignores_trailing_witness:
  "DecodeBytes \<lparr>CurrSeqID = 3, Dialects = [[(0, 50)]], br = []\<rparr>
     \<lparr>bytes = [0xfe, 0, 7, 1, 1, 0, 90, 108, 0xde, 0xad], beyond = [1, 2]\<rparr> =
   DecodeBytes \<lparr>CurrSeqID = 3, Dialects = [[(0, 50)]], br = []\<rparr>
     (slice_of [0xfe, 0, 7, 1, 1, 0, 90, 108])"
  using DecodeBytes_ignores_trailing [where dec = "\<lparr>CurrSeqID = 3, Dialects = [[(0, 50)]], br = []\<rparr>"
      and pl = "[]" and L = 0 and sq = 7 and sy = 1 and co = 1 and ms = 0 and ?c0.0 = 90
      and ?c1.0 = 108 and trailing = "[0xde, 0xad]" and sp = "[1, 2]", THEN conjunct1]
  by (simp add: startByte_def)

subsection \<open>Decoding a truncated buffer\<close>

lemma slice_range_panics: "\<not> (lo \<le> hi \<and> hi \<le> slice_cap b) \<Longrightarrow> slice_range b lo hi = Inl SliceBoundsOutOfRange"
  by (simp add: slice_range_def)

lemma slice_range_ok:
  "lo \<le> hi \<Longrightarrow> hi \<le> slice_cap b \<Longrightarrow>
   slice_range b lo hi = Inr \<lparr>bytes = take (hi - lo) (drop lo (bytes b @ beyond b)),
                               beyond = drop hi (bytes b @ beyond b)\<rparr>"
  by (simp add: slice_range_def)

lemma bytesToU16_short: "slice_len p < 2 \<Longrightarrow> bytesToU16 p = Inl IndexOutOfRange"
  by (simp add: bytesToU16_def index_def)

lemma DecodeBytes_invalid_header:
  assumes "slice_len b < hdrLen \<or> (\<exists>x xs. bytes b = x # xs \<and> x \<noteq> startByte)"
  shows "DecodeBytes dec b = Inr ((None, Some ErrInvalidHeader), dec)"
  using assms unfolding DecodeBytes_def
  by (auto simp: index_def slice_len_def)

text \<open>
  Claim C1. The claim asks that a buffer which declares more payload than it holds is
  answered with an error value. \<open>DecodeBytes\<close> checks the six header bytes and the start
  marker only (lemma \<open>DecodeBytes_invalid_header\<close>). For a buffer that starts with the
  marker, declares the payload length \<open>L\<close>, holds fewer than \<open>L + 2\<close> bytes after the
  header and names a message id the registry resolves, the call panics, whatever the
  capacity of the backing array: with a slice-bounds panic when the payload is cut
  short, with an index panic in \<open>bytesToU16\<close> when only the checksum is.
\<close>

theorem DecodeBytes_truncated_panics:
  assumes b: "bytes b = startByte # L # sq # sy # co # ms # xs"
    and short: "length xs < unat L + numChecksumBytes"
    and known: "findCrcX (Dialects dec) ms = Inr crcx"
  shows "DecodeBytes dec b =
           Inl (if length xs < unat L then SliceBoundsOutOfRange else IndexOutOfRange)"
proof -
  have l: "\<not> slice_len b < hdrLen"
    by (simp add: slice_len_def hdrLen_def b)
  have i0: "index b 0 = Inr startByte"
    by (simp add: index_def slice_len_def b)
  have s1: "slice_from b (Suc 0) = Inr \<lparr>bytes = L # sq # sy # co # ms # xs, beyond = beyond b\<rparr>"
    by (simp add: slice_from_def slice_range_def slice_len_def slice_cap_def b)
  have n: "newPacketFromBytes \<lparr>bytes = L # sq # sy # co # ms # xs, beyond = beyond b\<rparr> =
      Inr (\<lparr>SeqID = sq, SysID = sy, CompID = co, MsgID = ms, Payload = [], Checksum = 0\<rparr>, unat L)"
    by (rule newPacketFromBytes_hdr)
  show ?thesis
  proof (cases "hdrLen + unat L \<le> slice_cap b")
    case False
    then have "slice_range b hdrLen (hdrLen + unat L) = Inl SliceBoundsOutOfRange"
      by (simp add: slice_range_panics)
    moreover from False have "length xs < unat L"
      by (simp add: slice_cap_def hdrLen_def b)
    ultimately show ?thesis
      unfolding DecodeBytes_def by (simp add: l i0 s1 n)
  next
    case True
    then have s2: "\<exists>pl. slice_range b hdrLen (hdrLen + unat L) = Inr pl"
      by (simp add: slice_range_ok)
    from True have s3: "\<exists>cv. slice_range b (Suc 0) (hdrLen + unat L) = Inr cv"
      by (simp add: slice_range_ok hdrLen_def)
    show ?thesis
    proof (cases "length xs < unat L")
      case True
      then have "slice_from b (hdrLen + unat L) = Inl SliceBoundsOutOfRange"
        unfolding slice_from_def
        by (intro slice_range_panics) (simp add: slice_len_def hdrLen_def b)
      with True s2 s3 show ?thesis
        unfolding DecodeBytes_def by (auto simp: l i0 s1 n known Let_def)
    next
      case False
      then have "hdrLen + unat L \<le> slice_len b"
        by (simp add: slice_len_def hdrLen_def b)
      then have "\<exists>rest. slice_from b (hdrLen + unat L) = Inr rest \<and> slice_len rest < 2"
        using short unfolding slice_from_def
        by (simp add: slice_range_def slice_len_def slice_cap_def hdrLen_def b
              numChecksumBytes_def)
      then obtain rest where "slice_from b (hdrLen + unat L) = Inr rest"
        and "bytesToU16 rest = Inl IndexOutOfRange"
        using bytesToU16_short by blast
      with False s2 s3 show ?thesis
        unfolding DecodeBytes_def by (auto simp: l i0 s1 n known Let_def)
    qed
  qed
qed

theorem DecodeBytes_truncated_panics_witness:
  "DecodeBytes \<lparr>CurrSeqID = 0, Dialects = [[(0, 50)]], br = []\<rparr>
     \<lparr>bytes = [0xfe, 200, 0, 1, 1, 0] @ replicate 50 0, beyond = []\<rparr> =
     Inl SliceBoundsOutOfRange \<and>
   DecodeBytes \<lparr>CurrSeqID = 0, Dialects = [[(0, 50)]], br = []\<rparr>
     \<lparr>bytes = [0xfe, 200, 0, 1, 1, 0] @ replicate 50 0, beyond = replicate 968 0\<rparr> =
     Inl SliceBoundsOutOfRange \<and>
   DecodeBytes \<lparr>CurrSeqID = 0, Dialects = [[(0, 50)]], br = []\<rparr>
     \<lparr>bytes = [0xfe, 0, 0, 1, 1, 0, 0x5a], beyond = []\<rparr> = Inl IndexOutOfRange"
  using DecodeBytes_truncated_panics [where dec = "\<lparr>CurrSeqID = 0, Dialects = [[(0, 50)]], br = []\<rparr>"
      and b = "\<lparr>bytes = [0xfe, 200, 0, 1, 1, 0] @ replicate 50 0, beyond = []\<rparr>"
      and L = 200 and sq = 0 and sy = 1 and co = 1 and ms = 0 and xs = "replicate 50 0" and crcx = 50]
    DecodeBytes_truncated_panics [where dec = "\<lparr>CurrSeqID = 0, Dialects = [[(0, 50)]], br = []\<rparr>"
      and b = "\<lparr>bytes = [0xfe, 200, 0, 1, 1, 0] @ replicate 50 0, beyond = replicate 968 0\<rparr>"
      and L = 200 and sq = 0 and sy = 1 and co = 1 and ms = 0 and xs = "replicate 50 0" and crcx = 50]
    DecodeBytes_truncated_panics [where dec = "\<lparr>CurrSeqID = 0, Dialects = [[(0, 50)]], br = []\<rparr>"
      and b = "\<lparr>bytes = [0xfe, 0, 0, 1, 1, 0, 0x5a], beyond = []\<rparr>"
      and L = 0 and sq = 0 and sy = 1 and co = 1 and ms = 0 and xs = "[0x5a]" and crcx = 50]
  by (simp add: startByte_def numChecksumBytes_def)

subsection \<open>The buffered writer\<close>

text \<open>
  What has reached the sink followed by what is queued is the stream the writer was
  given: a write without an error appends its bytes to it.
\<close>

lemma sink_Write_ok:
  assumes "sink_Write s p = (n, e, s')"
  shows "(e = None \<longrightarrow> n = length p \<and> written s' = written s @ p) \<and>
         (budget s = None \<longrightarrow> e = None \<and> budget s' = None)"
  using assms by (auto simp: sink_Write_def split: option.splits if_splits)

lemma Flush_ok:
  assumes "werr b = None" and "Flush b = (e, b')"
  shows "wsize b' = wsize b \<and>
         (e = None \<longrightarrow> werr b' = None \<and> pending b' = [] \<and>
            written (wr b') = written (wr b) @ pending b) \<and>
         (e \<noteq> None \<longrightarrow> werr b' \<noteq> None) \<and>
         (budget (wr b) = None \<longrightarrow> e = None \<and> budget (wr b') = None)"
  using assms
  by (auto simp: Flush_def Buffered_def sink_Write_def Let_def split: option.splits if_splits)

lemma Write_loop_stop:
  "\<not> (length p > Available b \<and> werr b = None) \<Longrightarrow> Write_loop p nn b = (p, nn, b)"
  by (subst Write_loop.simps) auto

lemma Write_loop_direct:
  "length p > Available b \<Longrightarrow> werr b = None \<Longrightarrow> Buffered b = 0 \<Longrightarrow>
   sink_Write (wr b) p = (n, e, s) \<Longrightarrow>
   Write_loop p nn b = Write_loop (drop n p) (nn + n) (b\<lparr>werr := e, wr := s\<rparr>)"
  by (subst Write_loop.simps) simp

lemma Write_loop_fill:
  "length p > Available b \<Longrightarrow> werr b = None \<Longrightarrow> Buffered b \<noteq> 0 \<Longrightarrow>
   Write_loop p nn b =
   Write_loop (drop (Available b) p) (nn + Available b)
     (snd (Flush (b\<lparr>pending := pending b @ take (Available b) p\<rparr>)))"
  by (subst Write_loop.simps) (simp add: Let_def min_def)

lemma Write_loop_ok:
  "werr b = None \<Longrightarrow> Write_loop p nn b = (p', nn', b') \<Longrightarrow>
     wsize b' = wsize b \<and>
     (werr b' = None \<longrightarrow>
        written (wr b') @ pending b' @ p' = written (wr b) @ pending b @ p \<and>
        nn' + length p' = nn + length p \<and> length p' \<le> Available b') \<and>
     (budget (wr b) = None \<longrightarrow> werr b' = None \<and> budget (wr b') = None)"
proof (induction p nn b rule: Write_loop.induct)
  case (1 p nn b)
  show ?case
  proof (cases "length p > Available b")
    case False
    then have "Write_loop p nn b = (p, nn, b)"
      by (simp add: Write_loop_stop)
    with "1.prems" False show ?thesis by auto
  next
    case over: True
    show ?thesis
    proof (cases "Buffered b = 0")
      case True
      obtain n e s where sw: "sink_Write (wr b) p = (n, e, s)"
        by (cases "sink_Write (wr b) p") auto
      let ?b2 = "b\<lparr>werr := e, wr := s\<rparr>"
      have step: "Write_loop (drop n p) (nn + n) ?b2 = (p', nn', b')"
        using Write_loop_direct [OF over "1.prems"(1) True sw] "1.prems"(2) by simp
      note sk = sink_Write_ok [OF sw]
      show ?thesis
      proof (cases e)
        case None
        then have "werr ?b2 = None" by simp
        from "1.IH"(1) [OF conjI [OF over "1.prems"(1)] True sw [symmetric] refl this step]
        have ih: "wsize b' = wsize ?b2 \<and>
          (werr b' = None \<longrightarrow>
             written (wr b') @ pending b' @ p' = written (wr ?b2) @ pending ?b2 @ drop n p \<and>
             nn' + length p' = nn + n + length (drop n p) \<and> length p' \<le> Available b') \<and>
          (budget (wr ?b2) = None \<longrightarrow> werr b' = None \<and> budget (wr b') = None)"
          by simp
        from True have "pending b = []" by (simp add: Buffered_def)
        with ih sk None show ?thesis by auto
      next
        case (Some err)
        then have "Write_loop (drop n p) (nn + n) ?b2 = (drop n p, nn + n, ?b2)"
          by (simp add: Write_loop_stop)
        with step Some sk show ?thesis by auto
      qed
    next
      case False
      let ?b1 = "b\<lparr>pending := pending b @ take (Available b) p\<rparr>"
      obtain e b2 where fl: "Flush ?b1 = (e, b2)"
        by (cases "Flush ?b1") auto
      have w1: "werr ?b1 = None" using "1.prems"(1) by simp
      note fk = Flush_ok [OF w1 fl]
      have step: "Write_loop (drop (Available b) p) (nn + Available b) b2 = (p', nn', b')"
        using Write_loop_fill [OF over "1.prems"(1) False, of nn] "1.prems"(2) fl by simp
      have m: "min (Available b) (length p) = Available b"
        using over by simp
      show ?thesis
      proof (cases e)
        case None
        with fk have w2: "werr b2 = None" by simp
        have "wsize b' = wsize b2 \<and>
          (werr b' = None \<longrightarrow>
             written (wr b') @ pending b' @ p' =
               written (wr b2) @ pending b2 @ drop (Available b) p \<and>
             nn' + length p' = nn + Available b + length (drop (Available b) p) \<and>
             length p' \<le> Available b') \<and>
          (budget (wr b2) = None \<longrightarrow> werr b' = None \<and> budget (wr b') = None)"
          using "1.IH"(2) [OF conjI [OF over "1.prems"(1)] False refl refl] w2 step fl m
          by simp
        with fk None over show ?thesis by auto
      next
        case (Some err)
        with fk have "werr b2 \<noteq> None" by simp
        then have "Write_loop (drop (Available b) p) (nn + Available b) b2 =
            (drop (Available b) p, nn + Available b, b2)"
          by (simp add: Write_loop_stop)
        with step Some fk show ?thesis by auto
      qed
    qed
  qed
qed

lemma Write_ok:
  assumes w: "werr b = None" and r: "Write b p = (n, e, b')"
  shows "wsize b' = wsize b \<and>
         (e = None \<longrightarrow> n = length p \<and> werr b' = None \<and>
            written (wr b') @ pending b' = written (wr b) @ pending b @ p) \<and>
         (budget (wr b) = None \<longrightarrow> e = None \<and> budget (wr b') = None)"
proof -
  obtain p1 nn b1 where l: "Write_loop p 0 b = (p1, nn, b1)"
    by (cases "Write_loop p 0 b") auto
  note lk = Write_loop_ok [OF w l]
  show ?thesis
  proof (cases "werr b1")
    case None
    with lk have fit: "min (Available b1) (length p1) = length p1"
      by simp
    from r l None fit
    have "n = nn + length p1" "e = None" "b' = b1\<lparr>pending := pending b1 @ p1\<rparr>"
      by (simp_all add: Write_def Let_def)
    with lk None show ?thesis by auto
  next
    case (Some err)
    with r l have "e = Some err" "b' = b1"
      by (simp_all add: Write_def)
    with lk Some show ?thesis by auto
  qed
qed

subsection \<open>Encoding one packet\<close>

lemma writeAndCheck_ok:
  assumes w: "werr (bw enc) = None" and r: "writeAndCheck enc p = (e, enc')"
  shows "CurrSeqID enc' = CurrSeqID enc \<and> Dialects enc' = Dialects enc \<and>
         wsize (bw enc') = wsize (bw enc) \<and>
         (e = None \<longrightarrow> werr (bw enc') = None \<and>
            written (wr (bw enc')) @ pending (bw enc') =
              written (wr (bw enc)) @ pending (bw enc) @ p) \<and>
         (budget (wr (bw enc)) = None \<longrightarrow> e = None \<and> budget (wr (bw enc')) = None)"
proof -
  obtain n err b' where wr: "Write (bw enc) p = (n, err, b')"
    by (cases "Write (bw enc) p") auto
  note wk = Write_ok [OF w wr]
  from r wr have "enc' = enc\<lparr>bw := b'\<rparr>"
    by (simp add: writeAndCheck_def split: if_splits)
  moreover from r wr have "e = None \<longrightarrow> err = None"
    by (auto simp: writeAndCheck_def split: if_splits)
  moreover from r wr wk have "budget (wr (bw enc)) = None \<longrightarrow> e = None"
    by (auto simp: writeAndCheck_def split: if_splits)
  ultimately show ?thesis using wk by auto
qed

lemma writeAndCheck_codec:
  "writeAndCheck enc p = (e, enc') \<Longrightarrow>
   CurrSeqID enc' = CurrSeqID enc \<and> Dialects enc' = Dialects enc"
  by (auto simp: writeAndCheck_def split: prod.splits if_splits)

text \<open>The bytes that \<open>EncodePacket\<close> hands to its writer are the frame of the wire format.\<close>

lemma EncodePacket_frame:
  "[startByte, of_nat (length pl), sq, sy, co, ms] @ pl @
     u16ToBytes (x25_Sum16 (x25_WriteByte
       (x25_Write (x25_Write x25_New (drop 1 [startByte, of_nat (length pl), sq, sy, co, ms])) pl)
       crcx)) =
   spec_frame sq sy co ms pl crcx"
  by (simp add: spec_frame_def spec_checksum_def Let_def u16ToBytes_def startByte_def
        x25_Write_def)

lemma EncodePacket_ok:
  assumes w: "werr (bw enc) = None" and r: "EncodePacket enc p = (None, enc')"
  shows "\<exists>crcx. findCrcX (Dialects enc) (MsgID p) = Inr crcx \<and>
           written (wr (bw enc')) =
             written (wr (bw enc)) @ pending (bw enc) @
             spec_frame (CurrSeqID enc) (SysID p) (CompID p) (MsgID p) (Payload p) crcx \<and>
           pending (bw enc') = [] \<and> werr (bw enc') = None \<and>
           wsize (bw enc') = wsize (bw enc) \<and>
           CurrSeqID enc' = CurrSeqID enc + 1 \<and> Dialects enc' = Dialects enc"
proof -
  let ?hdr = "[startByte, of_nat (length (Payload p)), CurrSeqID enc, SysID p, CompID p, MsgID p]"
  obtain e1 enc1 where w1: "writeAndCheck enc ?hdr = (e1, enc1)"
    by (cases "writeAndCheck enc ?hdr") auto
  have e1: "e1 = None"
    using r w1 by (cases e1) (simp_all add: EncodePacket_def Let_def)
  note k1 = writeAndCheck_ok [OF w w1]
  obtain e2 enc2 where w2: "writeAndCheck enc1 (Payload p) = (e2, enc2)"
    by (cases "writeAndCheck enc1 (Payload p)") auto
  have e2: "e2 = None"
    using r w1 e1 w2 by (cases e2) (simp_all add: EncodePacket_def Let_def)
  from k1 e1 have w1n: "werr (bw enc1) = None" by simp
  note k2 = writeAndCheck_ok [OF w1n w2]
  obtain crcx where x: "findCrcX (Dialects enc2) (MsgID p) = Inr crcx"
    using r w1 e1 w2 e2
    by (cases "findCrcX (Dialects enc2) (MsgID p)") (simp_all add: EncodePacket_def Let_def)
  let ?crc = "u16ToBytes (x25_Sum16 (x25_WriteByte
       (x25_Write (x25_Write x25_New (drop 1 ?hdr)) (Payload p)) crcx))"
  obtain e3 enc3 where w3: "writeAndCheck enc2 ?crc = (e3, enc3)"
    by (cases "writeAndCheck enc2 ?crc") auto
  have e3: "e3 = None"
    using r w1 e1 w2 e2 x w3 by (cases e3) (simp_all add: EncodePacket_def Let_def)
  from k2 e2 have w2n: "werr (bw enc2) = None" by simp
  note k3 = writeAndCheck_ok [OF w2n w3]
  obtain e4 b4 where f: "Flush (bw enc3) = (e4, b4)"
    by (cases "Flush (bw enc3)") auto
  from r w1 e1 w2 e2 x w3 e3 f
  have e4: "e4 = None" and enc': "enc' = enc3\<lparr>bw := b4, CurrSeqID := CurrSeqID enc3 + 1\<rparr>"
    by (simp_all add: EncodePacket_def Let_def split: if_splits)
  from k3 e3 have w3n: "werr (bw enc3) = None" by simp
  note k4 = Flush_ok [OF w3n f]
  have "written (wr b4) = written (wr (bw enc)) @ pending (bw enc) @ ?hdr @ Payload p @ ?crc"
    using k1 k2 k3 k4 e1 e2 e3 e4 by simp
  then have "written (wr b4) = written (wr (bw enc)) @ pending (bw enc) @
      spec_frame (CurrSeqID enc) (SysID p) (CompID p) (MsgID p) (Payload p) crcx"
    by (simp only: EncodePacket_frame)
  moreover have "findCrcX (Dialects enc) (MsgID p) = Inr crcx"
    using x k1 k2 by simp
  ultimately show ?thesis
    using k1 k2 k3 k4 e4 enc' by simp
qed

lemma EncodePacket_failed:
  assumes "EncodePacket enc p = (Some err, enc')"
  shows "CurrSeqID enc' = CurrSeqID enc \<and> Dialects enc' = Dialects enc"
  using assms
  by (auto simp: EncodePacket_def Let_def split: prod.splits option.splits sum.splits if_splits
        dest!: writeAndCheck_codec)

text \<open>A writer with its sticky error set takes nothing: a successful encode began healthy.\<close>

lemma Write_sticky: "werr b = Some e \<Longrightarrow> Write b p = (0, Some e, b)"
  by (simp add: Write_def Write_loop_stop)

lemma EncodePacket_healthy:
  assumes "EncodePacket enc p = (None, enc')"
  shows "werr (bw enc) = None"
proof (cases "werr (bw enc)")
  case None
  then show ?thesis .
next
  case (Some e)
  then have "writeAndCheck enc
      [startByte, of_nat (length (Payload p)), CurrSeqID enc, SysID p, CompID p, MsgID p] =
      (Some e, enc\<lparr>bw := bw enc\<rparr>)"
    by (simp add: writeAndCheck_def Write_sticky)
  with assms show ?thesis
    by (simp add: EncodePacket_def Let_def)
qed

lemma EncodePacket_success:
  assumes "EncodePacket enc p = (None, enc')"
  shows "\<exists>crcx. findCrcX (Dialects enc) (MsgID p) = Inr crcx \<and>
           written (wr (bw enc')) =
             written (wr (bw enc)) @ pending (bw enc) @
             spec_frame (CurrSeqID enc) (SysID p) (CompID p) (MsgID p) (Payload p) crcx \<and>
           pending (bw enc') = [] \<and> werr (bw enc') = None \<and>
           wsize (bw enc') = wsize (bw enc) \<and>
           CurrSeqID enc' = CurrSeqID enc + 1 \<and> Dialects enc' = Dialects enc"
  using EncodePacket_ok [OF EncodePacket_healthy [OF assms] assms] .

lemma EncodePacket_reliable_sink:
  assumes w: "werr (bw enc) = None" and s: "budget (wr (bw enc)) = None"
    and x: "findCrcX (Dialects enc) (MsgID p) = Inr crcx"
  shows "fst (EncodePacket enc p) = None \<and> budget (wr (bw (snd (EncodePacket enc p)))) = None"
proof -
  let ?hdr = "[startByte, of_nat (length (Payload p)), CurrSeqID enc, SysID p, CompID p, MsgID p]"
  obtain e1 enc1 where w1: "writeAndCheck enc ?hdr = (e1, enc1)"
    by (cases "writeAndCheck enc ?hdr") auto
  note k1 = writeAndCheck_ok [OF w w1]
  from k1 s have e1: "e1 = None" by simp
  obtain e2 enc2 where w2: "writeAndCheck enc1 (Payload p) = (e2, enc2)"
    by (cases "writeAndCheck enc1 (Payload p)") auto
  from k1 e1 have w1n: "werr (bw enc1) = None" by simp
  note k2 = writeAndCheck_ok [OF w1n w2]
  from k1 k2 s have e2: "e2 = None" by simp
  let ?crc = "u16ToBytes (x25_Sum16 (x25_WriteByte
       (x25_Write (x25_Write x25_New (drop 1 ?hdr)) (Payload p)) crcx))"
  obtain e3 enc3 where w3: "writeAndCheck enc2 ?crc = (e3, enc3)"
    by (cases "writeAndCheck enc2 ?crc") auto
  from k2 e2 have w2n: "werr (bw enc2) = None" by simp
  note k3 = writeAndCheck_ok [OF w2n w3]
  from k1 k2 k3 s have e3: "e3 = None" by simp
  obtain e4 b4 where f: "Flush (bw enc3) = (e4, b4)"
    by (cases "Flush (bw enc3)") auto
  from k3 e3 have w3n: "werr (bw enc3) = None" by simp
  note k4 = Flush_ok [OF w3n f]
  from k1 k2 k3 k4 s have e4: "e4 = None" by simp
  have "findCrcX (Dialects enc2) (MsgID p) = Inr crcx"
    using x k1 k2 by simp
  with w1 e1 w2 e2 w3 e3 f e4 k1 k2 k3 k4 s show ?thesis
    by (simp add: EncodePacket_def Let_def)
qed

lemma EncodePacket_reliable:
  assumes "werr (bw enc) = None" and "budget (wr (bw enc)) = None"
    and "findCrcX (Dialects enc) (MsgID p) = Inr crcx"
  shows "fst (EncodePacket enc p) = None"
  using EncodePacket_reliable_sink [OF assms] by simp

text \<open>
  The writer of a new encoder over a plain sink holds no queued bytes and no error, and
  a successful \<open>EncodePacket\<close> leaves a writer in that state.
\<close>

lemma NewEncoder_idle:
  "werr (bw (NewEncoder dc (PlainWriter s))) = None \<and>
   pending (bw (NewEncoder dc (PlainWriter s))) = []"
  by (simp add: NewEncoder_def)

lemma EncodePacket_idle:
  assumes "werr (bw enc) = None" and "EncodePacket enc p = (None, enc')"
  shows "werr (bw enc') = None \<and> pending (bw enc') = []"
  using EncodePacket_ok [OF assms] by auto

subsection \<open>Checksum input and byte order\<close>

text \<open>
  Claim C3. Encoding and decoding compute the checksum over the five header bytes after
  the start marker, then the payload, then the crc-extra byte of the message id, and the
  16-bit sum is on the wire low byte first. For the encoder: a successful \<open>EncodePacket\<close>
  on a writer with nothing queued appends to the sink the frame of the wire format, whose
  checksum is \<open>spec_checksum\<close>. For the decoder: a frame read in full is accepted exactly
  when the two checksum bytes, read low byte first, are \<open>spec_checksum\<close> of its header
  and payload. The concrete scenario: system id 1, component id 1, message id 0 and an
  empty payload give the wire bytes \<open>FE 00 seq 01 01 00 lo hi\<close>.
\<close>

theorem checksum_layout:
  "(pending (bw enc) = [] \<and> EncodePacket enc p = (None, enc')
    \<longrightarrow> (\<exists>crcx. findCrcX (Dialects enc) (MsgID p) = Inr crcx \<and>
           written (wr (bw enc')) = written (wr (bw enc)) @
             spec_frame (CurrSeqID enc) (SysID p) (CompID p) (MsgID p) (Payload p) crcx)) \<and>
   (findCrcX (Dialects dec) ms = Inr crcx \<and> length pl = unat L \<and>
    br dec = startByte # [L, sq, sy, co, ms] @ pl @ [c0, c1] @ r
    \<longrightarrow> ((\<exists>q dec'. Decode dec = Inr ((Some q, None), dec')) \<longleftrightarrow>
           push_bit 8 (ucast c1) OR ucast c0 = spec_checksum [L, sq, sy, co, ms] pl crcx)) \<and>
   (pending (bw enc) = [] \<and> EncodePacket enc p = (None, enc') \<and>
    SysID p = 1 \<and> CompID p = 1 \<and> MsgID p = 0 \<and> Payload p = []
    \<longrightarrow> (\<exists>crcx crc. findCrcX (Dialects enc) 0 = Inr crcx \<and>
           crc = x25_Sum16 (x25_Write x25_New ([0x00, CurrSeqID enc, 0x01, 0x01, 0x00] @ [crcx])) \<and>
           written (wr (bw enc')) = written (wr (bw enc)) @
             [0xfe, 0x00, CurrSeqID enc, 0x01, 0x01, 0x00,
              ucast (crc AND 0xff), ucast (drop_bit 8 crc)]))"
proof (intro conjI impI)
  assume a: "pending (bw enc) = [] \<and> EncodePacket enc p = (None, enc')"
  then show "\<exists>crcx. findCrcX (Dialects enc) (MsgID p) = Inr crcx \<and>
           written (wr (bw enc')) = written (wr (bw enc)) @
             spec_frame (CurrSeqID enc) (SysID p) (CompID p) (MsgID p) (Payload p) crcx"
    using EncodePacket_success [of enc p enc'] by auto
next
  assume a: "findCrcX (Dialects dec) ms = Inr crcx \<and> length pl = unat L \<and>
    br dec = startByte # [L, sq, sy, co, ms] @ pl @ [c0, c1] @ r"
  then have "br dec = [] @ startByte # [L, sq, sy, co, ms] @ pl @ [c0, c1] @ r"
    by simp
  from Decode_frame [OF _ _ this, of ] a
  show "(\<exists>q dec'. Decode dec = Inr ((Some q, None), dec')) \<longleftrightarrow>
           push_bit 8 (ucast c1) OR ucast c0 = spec_checksum [L, sq, sy, co, ms] pl crcx"
    by (auto simp: spec_checksum_def Let_def)
next
  assume a: "pending (bw enc) = [] \<and> EncodePacket enc p = (None, enc') \<and>
    SysID p = 1 \<and> CompID p = 1 \<and> MsgID p = 0 \<and> Payload p = []"
  then show "\<exists>crcx crc. findCrcX (Dialects enc) 0 = Inr crcx \<and>
           crc = x25_Sum16 (x25_Write x25_New ([0x00, CurrSeqID enc, 0x01, 0x01, 0x00] @ [crcx])) \<and>
           written (wr (bw enc')) = written (wr (bw enc)) @
             [0xfe, 0x00, CurrSeqID enc, 0x01, 0x01, 0x00,
              ucast (crc AND 0xff), ucast (drop_bit 8 crc)]"
    using EncodePacket_success [of enc p enc']
    by (auto simp: spec_frame_def spec_checksum_def Let_def)
qed


theorem checksum_layout_witness:
  "written (wr (bw (snd (EncodePacket
      \<lparr>CurrSeqID = 7, Dialects = [[(0, 50)]],
         bw = \<lparr>wsize = 4096, pending = [], werr = None,
                wr = \<lparr>written = [], budget = None\<rparr>\<rparr>\<rparr>
      \<lparr>SeqID = 99, SysID = 1, CompID = 1, MsgID = 0, Payload = [], Checksum = 0\<rparr>)))) =
     [0xfe, 0x00, 0x07, 0x01, 0x01, 0x00, 0x5a, 0x6c] \<and>
   (\<exists>q dec'. Decode \<lparr>CurrSeqID = 3, Dialects = [[(0, 50)]],
                       br = [0xfe, 0x00, 0x07, 0x01, 0x01, 0x00, 0x5a, 0x6c]\<rparr> =
              Inr ((Some q, None), dec'))"
proof -
  let ?enc = "\<lparr>CurrSeqID = 7, Dialects = [[(0, 50)]],
         bw = \<lparr>wsize = 4096, pending = [], werr = None,
                wr = \<lparr>written = [], budget = None\<rparr>\<rparr>\<rparr>"
  let ?p = "\<lparr>SeqID = 99, SysID = 1, CompID = 1, MsgID = 0, Payload = [], Checksum = 0\<rparr>"
  let ?dec = "\<lparr>CurrSeqID = 3, Dialects = [[(0, 50)]],
                       br = [0xfe, 0x00, 0x07, 0x01, 0x01, 0x00, 0x5a, 0x6c]\<rparr>"
  note c = example_sums(1)
  have ok: "fst (EncodePacket ?enc ?p) = None"
    by (rule EncodePacket_reliable [where crcx = 50]) simp_all
  then have run: "EncodePacket ?enc ?p = (None, snd (EncodePacket ?enc ?p))"
    by (simp add: prod_eq_iff)
  have "\<exists>crcx crc. findCrcX (Dialects ?enc) 0 = Inr crcx \<and>
           crc = x25_Sum16 (x25_Write x25_New ([0x00, CurrSeqID ?enc, 0x01, 0x01, 0x00] @ [crcx])) \<and>
           written (wr (bw (snd (EncodePacket ?enc ?p)))) = written (wr (bw ?enc)) @
             [0xfe, 0x00, CurrSeqID ?enc, 0x01, 0x01, 0x00,
              ucast (crc AND 0xff), ucast (drop_bit 8 crc)]"
    using checksum_layout [where enc = ?enc and p = ?p and enc' = "snd (EncodePacket ?enc ?p)",
        THEN conjunct2, THEN conjunct2] run
    by simp
  then have enc: "written (wr (bw (snd (EncodePacket ?enc ?p)))) =
      [0xfe, 0x00, 0x07, 0x01, 0x01, 0x00, 0x5a, 0x6c]"
    by (simp add: c)
  have "(\<exists>q dec'. Decode ?dec = Inr ((Some q, None), dec')) \<longleftrightarrow>
      push_bit 8 (ucast (0x6c :: u8)) OR ucast (0x5a :: u8) =
        spec_checksum [0, 7, 1, 1, 0] [] 50"
    using checksum_layout [where dec = ?dec and ms = 0 and crcx = 50 and pl = "[]" and L = 0
        and sq = 7 and sy = 1 and co = 1 and ?c0.0 = "0x5a" and ?c1.0 = "0x6c" and r = "[]",
        THEN conjunct2, THEN conjunct1]
    by (simp add: startByte_def)
  then have dec: "\<exists>q dec'. Decode ?dec = Inr ((Some q, None), dec')"
    by (simp add: spec_checksum_def c)
  from enc dec show ?thesis by (rule conjI)
qed

subsection \<open>Round trip\<close>

text \<open>
  Claim C2. Let the encoder's writer hold no queued bytes and no error (as
  \<open>NewEncoder\<close> makes it and as every successful \<open>EncodePacket\<close> leaves it), let the
  packet have at most 255 payload bytes and a message id the registry resolves, and let
  the decoder use the same registry and read the bytes this call produced. When the
  sink never fails, \<open>EncodePacket\<close> returns no error; and whenever it returns no
  error, \<open>Decode\<close> succeeds with a packet that has the system id, component id, message
  id and payload of \<open>p\<close>. Its sequence id is the encoder's \<open>CurrSeqID\<close>, not \<open>SeqID p\<close>.
\<close>

theorem encode_decode_roundtrip:
  assumes "werr (bw enc) = None" and "pending (bw enc) = []"
    and "length (Payload p) \<le> 255"
    and "findCrcX (Dialects enc) (MsgID p) = Inr crcx"
    and "Dialects dec = Dialects enc"
    and "EncodePacket enc p = (e, enc')"
    and "br dec = drop (length (written (wr (bw enc)))) (written (wr (bw enc')))"
  shows "(budget (wr (bw enc)) = None \<longrightarrow> e = None) \<and>
         (e = None \<longrightarrow>
            Decode dec =
              Inr ((Some \<lparr>SeqID = CurrSeqID enc, SysID = SysID p, CompID = CompID p,
                          MsgID = MsgID p, Payload = Payload p,
                          Checksum = spec_checksum
                            [of_nat (length (Payload p)), CurrSeqID enc, SysID p, CompID p, MsgID p]
                            (Payload p) crcx\<rparr>, None),
                   dec\<lparr>br := [], CurrSeqID := CurrSeqID enc\<rparr>))"
proof (intro conjI impI)
  assume "budget (wr (bw enc)) = None"
  with EncodePacket_reliable [OF assms(1) this assms(4)] assms(6) show "e = None"
    by simp
next
  assume "e = None"
  with assms(6) have "EncodePacket enc p = (None, enc')" by simp
  from EncodePacket_ok [OF assms(1) this] assms(2,4)
  have "written (wr (bw enc')) = written (wr (bw enc)) @
      spec_frame (CurrSeqID enc) (SysID p) (CompID p) (MsgID p) (Payload p) crcx"
    by auto
  with assms(7)
  have src: "br dec = [] @ spec_frame (CurrSeqID enc) (SysID p) (CompID p) (MsgID p) (Payload p) crcx @ []"
    by simp
  have x: "findCrcX (Dialects dec) (MsgID p) = Inr crcx"
    using assms(4,5) by simp
  show "Decode dec =
              Inr ((Some \<lparr>SeqID = CurrSeqID enc, SysID = SysID p, CompID = CompID p,
                          MsgID = MsgID p, Payload = Payload p,
                          Checksum = spec_checksum
                            [of_nat (length (Payload p)), CurrSeqID enc, SysID p, CompID p, MsgID p]
                            (Payload p) crcx\<rparr>, None),
                   dec\<lparr>br := [], CurrSeqID := CurrSeqID enc\<rparr>)"
    by (rule Decode_spec_frame [OF _ assms(3) x src]) simp
qed

theorem encode_decode_roundtrip_witness:
  "fst (EncodePacket
      \<lparr>CurrSeqID = 7, Dialects = [[(0, 50)]],
         bw = \<lparr>wsize = 4096, pending = [], werr = None,
                wr = \<lparr>written = [], budget = None\<rparr>\<rparr>\<rparr>
      \<lparr>SeqID = 99, SysID = 1, CompID = 1, MsgID = 0, Payload = [0xde, 0xad],
         Checksum = 0\<rparr>) = None \<and>
   Decode \<lparr>CurrSeqID = 3, Dialects = [[(0, 50)]],
           br = written (wr (bw (snd (EncodePacket
             \<lparr>CurrSeqID = 7, Dialects = [[(0, 50)]],
                bw = \<lparr>wsize = 4096, pending = [], werr = None,
                       wr = \<lparr>written = [], budget = None\<rparr>\<rparr>\<rparr>
             \<lparr>SeqID = 99, SysID = 1, CompID = 1, MsgID = 0, Payload = [0xde, 0xad],
                Checksum = 0\<rparr>))))\<rparr> =
     Inr ((Some \<lparr>SeqID = 7, SysID = 1, CompID = 1, MsgID = 0, Payload = [0xde, 0xad],
                 Checksum = 11670\<rparr>, None),
          \<lparr>CurrSeqID = 7, Dialects = [[(0, 50)]], br = []\<rparr>)"
proof -
  let ?enc = "\<lparr>CurrSeqID = 7, Dialects = [[(0, 50)]],
         bw = \<lparr>wsize = 4096, pending = [], werr = None,
                wr = \<lparr>written = [], budget = None\<rparr>\<rparr>\<rparr>"
  let ?p = "\<lparr>SeqID = 99, SysID = 1, CompID = 1, MsgID = 0, Payload = [0xde, 0xad],
         Checksum = 0\<rparr>"
  let ?dec = "\<lparr>CurrSeqID = 3, Dialects = [[(0, 50)]],
           br = written (wr (bw (snd (EncodePacket ?enc ?p))))\<rparr>"
  note c = example_checksums(2)
  have "(budget (wr (bw ?enc)) = None \<longrightarrow> fst (EncodePacket ?enc ?p) = None) \<and>
        (fst (EncodePacket ?enc ?p) = None \<longrightarrow>
            Decode ?dec =
              Inr ((Some \<lparr>SeqID = CurrSeqID ?enc, SysID = SysID ?p, CompID = CompID ?p,
                          MsgID = MsgID ?p, Payload = Payload ?p,
                          Checksum = spec_checksum
                            [of_nat (length (Payload ?p)), CurrSeqID ?enc, SysID ?p, CompID ?p,
                             MsgID ?p]
                            (Payload ?p) 50\<rparr>, None),
                   ?dec\<lparr>br := [], CurrSeqID := CurrSeqID ?enc\<rparr>))"
    by (rule encode_decode_roundtrip [where enc' = "snd (EncodePacket ?enc ?p)"]) simp_all
  then show ?thesis
    by (simp add: c)
qed

subsection \<open>Sequence numbers\<close>

lemma frames_shift:
  "concat (map (\<lambda>(i, p). F (s + of_nat i) p) (enumerate 0 (p # ps))) =
   F s p @ concat (map (\<lambda>(i, p). F (s + 1 + of_nat i) p) (enumerate 0 ps))"
  for s :: u8
proof -
  have "map (\<lambda>(i, p). F (s + of_nat i) p) (enumerate (Suc 0) ps) =
        map (\<lambda>(i, p). F (s + 1 + of_nat i) p) (enumerate 0 ps)"
    by (simp add: enumerate_Suc_eq split_def ac_simps)
  then show ?thesis by simp
qed

lemma EncodePackets_ok:
  "werr (bw enc) = None \<Longrightarrow> EncodePackets enc ps = (None, enc') \<Longrightarrow>
   written (wr (bw enc')) =
     written (wr (bw enc)) @ (if ps = [] then [] else pending (bw enc)) @
     concat (map (\<lambda>(i, p). frame_of (Dialects enc) (CurrSeqID enc + of_nat i) p)
       (enumerate 0 ps)) \<and>
   CurrSeqID enc' = CurrSeqID enc + of_nat (length ps) \<and>
   werr (bw enc') = None \<and> Dialects enc' = Dialects enc"
proof (induction ps arbitrary: enc)
  case Nil
  then show ?case by simp
next
  case (Cons p ps)
  obtain e1 enc1 where one: "EncodePacket enc p = (e1, enc1)"
    by (cases "EncodePacket enc p") auto
  with Cons.prems(2) have e1: "e1 = None" and rest: "EncodePackets enc1 ps = (None, enc')"
    by (cases e1; simp)+
  from EncodePacket_ok [OF Cons.prems(1)] one e1
  obtain crcx where x: "findCrcX (Dialects enc) (MsgID p) = Inr crcx"
    and w1: "written (wr (bw enc1)) = written (wr (bw enc)) @ pending (bw enc) @
               spec_frame (CurrSeqID enc) (SysID p) (CompID p) (MsgID p) (Payload p) crcx"
    and k1: "pending (bw enc1) = []" "werr (bw enc1) = None"
      "CurrSeqID enc1 = CurrSeqID enc + 1" "Dialects enc1 = Dialects enc"
    by blast
  from x have f: "frame_of (Dialects enc) (CurrSeqID enc) p =
      spec_frame (CurrSeqID enc) (SysID p) (CompID p) (MsgID p) (Payload p) crcx"
    by (simp add: frame_of_def)
  from Cons.IH [OF k1(2) rest] k1 w1 f show ?case
    by (simp only: frames_shift) (simp add: ac_simps)
qed

lemma EncodePackets_reliable:
  "werr (bw enc) = None \<Longrightarrow> budget (wr (bw enc)) = None \<Longrightarrow>
   \<forall>p \<in> set ps. \<exists>crcx. findCrcX (Dialects enc) (MsgID p) = Inr crcx \<Longrightarrow>
   fst (EncodePackets enc ps) = None"
proof (induction ps arbitrary: enc)
  case Nil
  then show ?case by simp
next
  case (Cons p ps)
  from Cons.prems(3) obtain crcx where x: "findCrcX (Dialects enc) (MsgID p) = Inr crcx"
    by auto
  obtain e1 enc1 where one: "EncodePacket enc p = (e1, enc1)"
    by (cases "EncodePacket enc p") auto
  from EncodePacket_reliable_sink [OF Cons.prems(1,2) x] one
  have e1: "e1 = None" and b1: "budget (wr (bw enc1)) = None"
    by simp_all
  from EncodePacket_ok [OF Cons.prems(1)] one e1
  have k1: "werr (bw enc1) = None" "Dialects enc1 = Dialects enc"
    by auto
  from Cons.prems(3) k1
  have "\<forall>p \<in> set ps. \<exists>crcx. findCrcX (Dialects enc1) (MsgID p) = Inr crcx"
    by simp
  from Cons.IH [OF k1(1) b1 this] one e1 show ?case
    by simp
qed

lemma EncodePackets_success:
  assumes "EncodePackets enc ps = (None, enc')"
  shows "written (wr (bw enc')) =
     written (wr (bw enc)) @ (if ps = [] then [] else pending (bw enc)) @
     concat (map (\<lambda>(i, p). frame_of (Dialects enc) (CurrSeqID enc + of_nat i) p)
       (enumerate 0 ps)) \<and>
   CurrSeqID enc' = CurrSeqID enc + of_nat (length ps)"
proof (cases ps)
  case Nil
  with assms show ?thesis by simp
next
  case (Cons p ps')
  obtain e1 enc1 where one: "EncodePacket enc p = (e1, enc1)"
    by (cases "EncodePacket enc p") auto
  with assms Cons have "e1 = None"
    by (cases e1) simp_all
  with one have "werr (bw enc) = None"
    by (simp add: EncodePacket_healthy)
  from EncodePackets_ok [OF this assms] show ?thesis
    by simp
qed

text \<open>
  Claim C4. On an encoder whose writer holds nothing queued, \<open>N\<close> consecutive successful
  \<open>EncodePacket\<close> calls starting from counter \<open>s\<close> put on the sink, in order, the frames
  of the packets under the sequence ids \<open>s\<close>, \<open>s + 1\<close>, ... (in \<open>8 word\<close>, that is
  modulo 256), and leave the counter at \<open>s + N\<close>. The sequence id is the third byte of
  a frame. The \<open>SeqID\<close> field of the input packet changes neither the frame nor the
  result of \<open>EncodePacket\<close>. A call that returns an error leaves the counter as it was;
  a call that returns no error has advanced it by one and has flushed everything.
\<close>

theorem sequence_ids:
  "(pending (bw enc) = [] \<and> EncodePackets enc ps = (None, enc')
    \<longrightarrow> written (wr (bw enc')) =
          written (wr (bw enc)) @
          concat (map (\<lambda>(i, p). frame_of (Dialects enc) (CurrSeqID enc + of_nat i) p)
            (enumerate 0 ps)) \<and>
        CurrSeqID enc' = CurrSeqID enc + of_nat (length ps)) \<and>
   (findCrcX ds (MsgID p) = Inr crcx
    \<longrightarrow> frame_of ds sq p ! 2 = sq \<and> frame_of ds sq (p\<lparr>SeqID := x\<rparr>) = frame_of ds sq p) \<and>
   unat (sq + of_nat i) = (unat sq + i) mod 256 \<and>
   EncodePacket enc (p\<lparr>SeqID := x\<rparr>) = EncodePacket enc p \<and>
   (EncodePacket enc p = (Some err, enc1) \<longrightarrow> CurrSeqID enc1 = CurrSeqID enc) \<and>
   (EncodePacket enc p = (None, enc1)
    \<longrightarrow> CurrSeqID enc1 = CurrSeqID enc + 1 \<and> pending (bw enc1) = [] \<and>
        (\<exists>crcx. written (wr (bw enc1)) =
           written (wr (bw enc)) @ pending (bw enc) @
           spec_frame (CurrSeqID enc) (SysID p) (CompID p) (MsgID p) (Payload p) crcx))"
proof (intro conjI impI)
  assume a: "pending (bw enc) = [] \<and> EncodePackets enc ps = (None, enc')"
  with EncodePackets_success [of enc ps enc']
  show "written (wr (bw enc')) =
          written (wr (bw enc)) @
          concat (map (\<lambda>(i, p). frame_of (Dialects enc) (CurrSeqID enc + of_nat i) p)
            (enumerate 0 ps))"
    and "CurrSeqID enc' = CurrSeqID enc + of_nat (length ps)"
    by simp_all
next
  assume "findCrcX ds (MsgID p) = Inr crcx"
  then show "frame_of ds sq p ! 2 = sq"
    and "frame_of ds sq (p\<lparr>SeqID := x\<rparr>) = frame_of ds sq p"
    by (simp_all add: frame_of_def spec_frame_def Let_def)
next
  show "unat (sq + of_nat i) = (unat sq + i) mod 256"
    by (simp add: unat_word_ariths unat_of_nat mod_simps)
next
  show "EncodePacket enc (p\<lparr>SeqID := x\<rparr>) = EncodePacket enc p"
    by (simp add: EncodePacket_def Let_def cong: option.case_cong sum.case_cong)
next
  assume "EncodePacket enc p = (Some err, enc1)"
  then show "CurrSeqID enc1 = CurrSeqID enc"
    by (simp add: EncodePacket_failed)
next
  assume a: "EncodePacket enc p = (None, enc1)"
  with EncodePacket_success [of enc p enc1]
  show "CurrSeqID enc1 = CurrSeqID enc + 1" and "pending (bw enc1) = []"
    and "\<exists>crcx. written (wr (bw enc1)) =
           written (wr (bw enc)) @ pending (bw enc) @
           spec_frame (CurrSeqID enc) (SysID p) (CompID p) (MsgID p) (Payload p) crcx"
    by auto
qed

theorem sequence_ids_witness:
  "written (wr (bw (snd (EncodePackets
      \<lparr>CurrSeqID = 254, Dialects = [[(0, 50)]],
         bw = \<lparr>wsize = 4096, pending = [], werr = None,
                wr = \<lparr>written = [], budget = None\<rparr>\<rparr>\<rparr>
      [\<lparr>SeqID = 99, SysID = 1, CompID = 1, MsgID = 0, Payload = [], Checksum = 0\<rparr>,
       \<lparr>SeqID = 5, SysID = 2, CompID = 1, MsgID = 0, Payload = [9], Checksum = 0\<rparr>,
       \<lparr>SeqID = 5, SysID = 3, CompID = 1, MsgID = 0, Payload = [], Checksum = 0\<rparr>])))) =
     [0xfe, 0, 254, 1, 1, 0, 152, 162] @ [0xfe, 1, 255, 2, 1, 0, 9, 202, 222] @
     [0xfe, 0, 0, 3, 1, 0, 240, 101] \<and>
   CurrSeqID (snd (EncodePackets
      \<lparr>CurrSeqID = 254, Dialects = [[(0, 50)]],
         bw = \<lparr>wsize = 4096, pending = [], werr = None,
                wr = \<lparr>written = [], budget = None\<rparr>\<rparr>\<rparr>
      [\<lparr>SeqID = 99, SysID = 1, CompID = 1, MsgID = 0, Payload = [], Checksum = 0\<rparr>,
       \<lparr>SeqID = 5, SysID = 2, CompID = 1, MsgID = 0, Payload = [9], Checksum = 0\<rparr>,
       \<lparr>SeqID = 5, SysID = 3, CompID = 1, MsgID = 0, Payload = [], Checksum = 0\<rparr>])) = 1"
proof -
  let ?enc = "\<lparr>CurrSeqID = 254, Dialects = [[(0, 50)]],
         bw = \<lparr>wsize = 4096, pending = [], werr = None,
                wr = \<lparr>written = [], budget = None\<rparr>\<rparr>\<rparr>"
  let ?ps = "[\<lparr>SeqID = 99, SysID = 1, CompID = 1, MsgID = 0, Payload = [], Checksum = 0\<rparr>,
       \<lparr>SeqID = 5, SysID = 2, CompID = 1, MsgID = 0, Payload = [9], Checksum = 0\<rparr>,
       \<lparr>SeqID = 5, SysID = 3, CompID = 1, MsgID = 0, Payload = [], Checksum = 0\<rparr>]"
  have ok: "fst (EncodePackets ?enc ?ps) = None"
    by (rule EncodePackets_reliable) simp_all
  then have run: "EncodePackets ?enc ?ps = (None, snd (EncodePackets ?enc ?ps))"
    by (simp add: prod_eq_iff)
  note f1 = example_frames(3)
  note f2 = example_frames(4)
  have wrap: "(254 :: u8) + 2 = 0"
    by simp
  have f3: "spec_frame (254 + 2) 3 1 0 [] 50 = [0xfe, 0, 0, 3, 1, 0, 240, 101]"
    unfolding wrap by (rule example_frames(5))
  have n: "(254 :: u8) + 3 = 1"
    by simp
  have e: "enumerate 0 ?ps = zip [0, 1, 2] ?ps"
    by (simp add: enumerate_eq_zip upt_rec)
  from sequence_ids [where enc = ?enc and ps = ?ps and enc' = "snd (EncodePackets ?enc ?ps)",
      THEN conjunct1, rule_format, OF conjI [OF _ run]]
  have "written (wr (bw (snd (EncodePackets ?enc ?ps)))) =
          written (wr (bw ?enc)) @
          concat (map (\<lambda>(i, p). frame_of (Dialects ?enc) (CurrSeqID ?enc + of_nat i) p)
            (enumerate 0 ?ps)) \<and>
        CurrSeqID (snd (EncodePackets ?enc ?ps)) = CurrSeqID ?enc + of_nat (length ?ps)"
    by (simp del: EncodePackets.simps)
  then show ?thesis
    unfolding e using f1 f2 f3 n by (simp add: frame_of_def del: EncodePackets.simps)
qed

subsection \<open>Encoding a packet with an unknown message id\<close>

lemma Write_fits:
  assumes "werr b = None" and "length p \<le> Available b"
  shows "Write b p = (length p, None, b\<lparr>pending := pending b @ p\<rparr>)"
proof -
  from assms(2) have "Write_loop p 0 b = (p, 0, b)"
    by (simp add: Write_loop_stop)
  with assms show ?thesis
    by (simp add: Write_def Let_def)
qed

lemma writeAndCheck_fits:
  assumes "werr (bw enc) = None" and "length p \<le> Available (bw enc)"
  shows "writeAndCheck enc p = (None, enc\<lparr>bw := (bw enc)\<lparr>pending := pending (bw enc) @ p\<rparr>\<rparr>)"
  using Write_fits [OF assms] by (simp add: writeAndCheck_def)

lemma EncodePacket_unknown:
  assumes w: "werr (bw enc) = None"
    and x: "findCrcX (Dialects enc) (MsgID bad) = Inl ErrUnknownMsgID"
    and room: "hdrLen + length (Payload bad) \<le> Available (bw enc)"
  shows "EncodePacket enc bad =
     (Some ErrUnknownMsgID,
      enc\<lparr>bw := (bw enc)\<lparr>pending :=
        pending (bw enc) @
        [startByte, of_nat (length (Payload bad)), CurrSeqID enc,
         SysID bad, CompID bad, MsgID bad] @ Payload bad\<rparr>\<rparr>)"
proof -
  let ?hdr = "[startByte, of_nat (length (Payload bad)), CurrSeqID enc,
            SysID bad, CompID bad, MsgID bad]"
  let ?a = "enc\<lparr>bw := (bw enc)\<lparr>pending := pending (bw enc) @ ?hdr\<rparr>\<rparr>"
  let ?b = "enc\<lparr>bw := (bw enc)\<lparr>pending := pending (bw enc) @ ?hdr @ Payload bad\<rparr>\<rparr>"
  have h: "writeAndCheck enc ?hdr = (None, ?a)"
    using room by (intro writeAndCheck_fits [OF w]) (simp add: hdrLen_def)
  have "writeAndCheck ?a (Payload bad) =
      (None, ?a\<lparr>bw := (bw ?a)\<lparr>pending := pending (bw ?a) @ Payload bad\<rparr>\<rparr>)"
    using room w by (intro writeAndCheck_fits) (simp_all add: hdrLen_def Available_def)
  then have pl: "writeAndCheck ?a (Payload bad) = (None, ?b)"
    by simp
  show ?thesis
    by (simp add: EncodePacket_def Let_def h pl x)
qed

text \<open>
  Claim C5. The claim asks that no byte of a frame aborted for an unknown message id
  ever reaches the sink. \<open>EncodePacket\<close> looks the message id up after it has handed
  the header and the payload to its buffered writer, and returns without discarding
  them. When they fit into the free buffer space the call does return
  \<open>ErrUnknownMsgID\<close>, leaves \<open>CurrSeqID\<close> and the sink unchanged, and leaves the header
  and payload of the aborted frame queued; the next successful \<open>EncodePacket\<close> flushes
  them to the sink in front of its own frame.
\<close>

theorem EncodePacket_abort_leaks:
  assumes w: "werr (bw enc) = None"
    and unknown: "\<forall>d \<in> set (Dialects enc). map_of d (MsgID bad) = None"
    and room: "hdrLen + length (Payload bad) \<le> Available (bw enc)"
    and first: "EncodePacket enc bad = (e1, enc1)"
    and second: "EncodePacket enc1 good = (None, enc2)"
  shows "e1 = Some ErrUnknownMsgID \<and> CurrSeqID enc1 = CurrSeqID enc \<and>
         written (wr (bw enc1)) = written (wr (bw enc)) \<and>
         pending (bw enc1) =
           pending (bw enc) @
           [startByte, of_nat (length (Payload bad)), CurrSeqID enc,
            SysID bad, CompID bad, MsgID bad] @ Payload bad \<and>
         (\<exists>crcx. findCrcX (Dialects enc) (MsgID good) = Inr crcx \<and>
            written (wr (bw enc2)) =
            written (wr (bw enc)) @ pending (bw enc) @
            [startByte, of_nat (length (Payload bad)), CurrSeqID enc,
             SysID bad, CompID bad, MsgID bad] @ Payload bad @
            spec_frame (CurrSeqID enc) (SysID good) (CompID good) (MsgID good)
              (Payload good) crcx)"
proof -
  let ?hdr = "[startByte, of_nat (length (Payload bad)), CurrSeqID enc,
            SysID bad, CompID bad, MsgID bad]"
  let ?b = "enc\<lparr>bw := (bw enc)\<lparr>pending := pending (bw enc) @ ?hdr @ Payload bad\<rparr>\<rparr>"
  have x: "findCrcX (Dialects enc) (MsgID bad) = Inl ErrUnknownMsgID"
    using unknown by (rule findCrcX_absent)
  from EncodePacket_unknown [OF w x room] first
  have e1: "e1 = Some ErrUnknownMsgID" and enc1: "enc1 = ?b"
    by simp_all
  have "werr (bw enc1) = None"
    using w enc1 by simp
  from EncodePacket_ok [OF this second] enc1 e1 show ?thesis
    by auto
qed

theorem EncodePacket_abort_leaks_witness:
  "fst (EncodePacket
      \<lparr>CurrSeqID = 7, Dialects = [[(0, 50)]],
         bw = \<lparr>wsize = 4096, pending = [], werr = None,
                wr = \<lparr>written = [], budget = None\<rparr>\<rparr>\<rparr>
      \<lparr>SeqID = 0, SysID = 1, CompID = 1, MsgID = 9, Payload = [0xaa], Checksum = 0\<rparr>) =
     Some ErrUnknownMsgID \<and>
   written (wr (bw (snd (EncodePacket
      (snd (EncodePacket
         \<lparr>CurrSeqID = 7, Dialects = [[(0, 50)]],
            bw = \<lparr>wsize = 4096, pending = [], werr = None,
                   wr = \<lparr>written = [], budget = None\<rparr>\<rparr>\<rparr>
         \<lparr>SeqID = 0, SysID = 1, CompID = 1, MsgID = 9, Payload = [0xaa], Checksum = 0\<rparr>))
      \<lparr>SeqID = 0, SysID = 1, CompID = 1, MsgID = 0, Payload = [], Checksum = 0\<rparr>)))) =
     [0xfe, 0x01, 0x07, 0x01, 0x01, 0x09, 0xaa] @
     [0xfe, 0x00, 0x07, 0x01, 0x01, 0x00, 0x5a, 0x6c]"
proof -
  let ?enc = "\<lparr>CurrSeqID = 7, Dialects = [[(0, 50)]],
         bw = \<lparr>wsize = 4096, pending = [], werr = None,
                wr = \<lparr>written = [], budget = None\<rparr>\<rparr>\<rparr>"
  let ?bad = "\<lparr>SeqID = 0, SysID = 1, CompID = 1, MsgID = 9, Payload = [0xaa], Checksum = 0\<rparr>"
  let ?good = "\<lparr>SeqID = 0, SysID = 1, CompID = 1, MsgID = 0, Payload = [], Checksum = 0\<rparr>"
  let ?enc1 = "snd (EncodePacket ?enc ?bad)"
  let ?enc2 = "snd (EncodePacket ?enc1 ?good)"
  have "EncodePacket ?enc ?bad =
     (Some ErrUnknownMsgID,
      ?enc\<lparr>bw := (bw ?enc)\<lparr>pending :=
        pending (bw ?enc) @
        [startByte, of_nat (length (Payload ?bad)), CurrSeqID ?enc,
         SysID ?bad, CompID ?bad, MsgID ?bad] @ Payload ?bad\<rparr>\<rparr>)"
    by (rule EncodePacket_unknown) (simp_all add: hdrLen_def Available_def)
  then have aborted: "werr (bw ?enc1) = None" "budget (wr (bw ?enc1)) = None"
    "Dialects ?enc1 = [[(0, 50)]]"
    by simp_all
  have ok: "fst (EncodePacket ?enc1 ?good) = None"
    by (rule EncodePacket_reliable [where crcx = 50]) (simp_all add: aborted)
  note f = example_frames(1)
  have "fst (EncodePacket ?enc ?bad) = Some ErrUnknownMsgID \<and> CurrSeqID ?enc1 = CurrSeqID ?enc \<and>
         written (wr (bw ?enc1)) = written (wr (bw ?enc)) \<and>
         pending (bw ?enc1) =
           pending (bw ?enc) @
           [startByte, of_nat (length (Payload ?bad)), CurrSeqID ?enc,
            SysID ?bad, CompID ?bad, MsgID ?bad] @ Payload ?bad \<and>
         (\<exists>crcx. findCrcX (Dialects ?enc) (MsgID ?good) = Inr crcx \<and>
            written (wr (bw ?enc2)) =
            written (wr (bw ?enc)) @ pending (bw ?enc) @
            [startByte, of_nat (length (Payload ?bad)), CurrSeqID ?enc,
             SysID ?bad, CompID ?bad, MsgID ?bad] @ Payload ?bad @
            spec_frame (CurrSeqID ?enc) (SysID ?good) (CompID ?good) (MsgID ?good)
              (Payload ?good) crcx)"
  proof (rule EncodePacket_abort_leaks)
    show "EncodePacket ?enc1 ?good = (None, ?enc2)"
      using ok by (simp add: prod_eq_iff)
    show "EncodePacket ?enc ?bad = (fst (EncodePacket ?enc ?bad), ?enc1)"
      by simp
  qed (simp_all add: hdrLen_def Available_def)
  then show ?thesis
    by (simp add: f startByte_def)
qed

subsection \<open>Payload length\<close>

lemma slice_range_length:
  "slice_range b lo hi = Inr s \<Longrightarrow> length (bytes s) \<le> hi - lo"
  by (auto simp: slice_range_def split: if_splits)

lemma newPacketFromBytes_result:
  "newPacketFromBytes b = Inr (p, n) \<Longrightarrow> n \<le> 255 \<and> Payload p = []"
proof -
  have "unat (x :: u8) \<le> 255" for x
    using unsigned_less [of x, where ?'a = nat] by simp
  moreover assume "newPacketFromBytes b = Inr (p, n)"
  ultimately show ?thesis
    by (auto simp: newPacketFromBytes_def split: sum.splits)
qed

lemma Decode_payload_bound:
  assumes "Decode dec = Inr ((Some q, e), dec')"
  shows "length (Payload q) \<le> 255"
proof -
  obtain e1 r1 where d: "discardToStart (br dec) = (e1, r1)"
    by (cases "discardToStart (br dec)") auto
  obtain hdr e2 r2 where h: "ReadFull r1 5 = (hdr, e2, r2)"
    by (cases "ReadFull r1 5") auto
  from assms d h have e1: "e1 = None" and e2: "e2 = None"
    by (cases e1; cases e2; simp add: Decode_def)+
  from assms d h e1 e2 obtain p n where n: "newPacketFromBytes (slice_of hdr) = Inr (p, n)"
    by (cases "newPacketFromBytes (slice_of hdr)") (auto simp: Decode_def)
  note nk = newPacketFromBytes_result [OF n]
  obtain buf e3 r3 where b: "ReadFull r2 (n + numChecksumBytes) = (buf, e3, r3)"
    by (cases "ReadFull r2 (n + numChecksumBytes)") auto
  show ?thesis
  proof (cases e3)
    case (Some err)
    with assms d h e1 e2 n b have "q = p"
      by (simp add: Decode_def Let_def)
    with nk show ?thesis by simp
  next
    case None
    with assms d h e1 e2 n b obtain pl where s: "slice_to (slice_of buf) n = Inr pl"
      by (cases "slice_to (slice_of buf) n") (auto simp: Decode_def Let_def)
    then have l: "length (bytes pl) \<le> n"
      using slice_range_length [of "slice_of buf" 0 n pl] by (simp add: slice_to_def)
    from assms d h e1 e2 n b None s have "Payload q = bytes pl"
      by (auto simp: Decode_def Let_def split: sum.splits if_splits)
    with l nk show ?thesis by simp
  qed
qed

lemma DecodeBytes_payload_bound:
  assumes "DecodeBytes dec b = Inr ((Some q, e), dec')"
  shows "length (Payload q) \<le> 255"
proof -
  from assms have l: "\<not> slice_len b < hdrLen"
    by (auto simp: DecodeBytes_def)
  from assms l obtain b0 where i: "index b 0 = Inr b0"
    by (cases "index b 0") (auto simp: DecodeBytes_def)
  from assms l i have s: "b0 = startByte"
    by (auto simp: DecodeBytes_def split: if_splits)
  from assms l i s obtain b1 where s1: "slice_from b 1 = Inr b1"
    by (cases "slice_from b 1") (auto simp: DecodeBytes_def)
  from assms l i s s1 obtain p n where n: "newPacketFromBytes b1 = Inr (p, n)"
    by (cases "newPacketFromBytes b1") (auto simp: DecodeBytes_def)
  note nk = newPacketFromBytes_result [OF n]
  from assms l i s s1 n obtain pl where s2: "slice_range b hdrLen (hdrLen + n) = Inr pl"
    by (cases "slice_range b hdrLen (hdrLen + n)") (auto simp: DecodeBytes_def)
  from slice_range_length [OF s2] have len: "length (bytes pl) \<le> n"
    by simp
  from assms l i s s1 n s2 have "Payload q = bytes pl"
    by (auto simp: DecodeBytes_def Let_def split: sum.splits if_splits)
  with len nk show ?thesis by simp
qed

text \<open>
  Claim C9, as amended. Every packet that \<open>Decode\<close> or \<open>DecodeBytes\<close> returns has at
  most 255 payload bytes. \<open>EncodePacket\<close> does not check the payload length: a
  successful call on a writer with nothing queued emits the six header bytes, all
  payload bytes and the two checksum bytes, and its length byte is the payload length
  modulo 256, hence the payload length itself when that is at most 255.
\<close>

theorem payload_length_invariant:
  "(Decode dec = Inr ((Some q, e), dec') \<longrightarrow> length (Payload q) \<le> 255) \<and>
   (DecodeBytes dec b = Inr ((Some q, e), dec') \<longrightarrow> length (Payload q) \<le> 255) \<and>
   (pending (bw enc) = [] \<and> EncodePacket enc p = (None, enc')
    \<longrightarrow> (\<exists>out. written (wr (bw enc')) = written (wr (bw enc)) @ out \<and>
          length out = hdrLen + length (Payload p) + numChecksumBytes \<and>
          unat (out ! 1) = length (Payload p) mod 256 \<and>
          take (length (Payload p)) (drop hdrLen out) = Payload p \<and>
          (length (Payload p) \<le> 255 \<longrightarrow> unat (out ! 1) = length (Payload p))))"
proof (intro conjI impI)
  assume "Decode dec = Inr ((Some q, e), dec')"
  then show "length (Payload q) \<le> 255"
    by (rule Decode_payload_bound)
next
  assume "DecodeBytes dec b = Inr ((Some q, e), dec')"
  then show "length (Payload q) \<le> 255"
    by (rule DecodeBytes_payload_bound)
next
  assume a: "pending (bw enc) = [] \<and> EncodePacket enc p = (None, enc')"
  with EncodePacket_success [of enc p enc'] obtain crcx
    where w: "written (wr (bw enc')) = written (wr (bw enc)) @
      spec_frame (CurrSeqID enc) (SysID p) (CompID p) (MsgID p) (Payload p) crcx"
    by auto
  let ?out = "spec_frame (CurrSeqID enc) (SysID p) (CompID p) (MsgID p) (Payload p) crcx"
  have "length ?out = hdrLen + length (Payload p) + numChecksumBytes"
    by (simp add: spec_frame_def Let_def hdrLen_def numChecksumBytes_def)
  moreover have n: "unat (?out ! 1) = length (Payload p) mod 256"
    by (simp add: spec_frame_def Let_def unat_of_nat)
  moreover have "take (length (Payload p)) (drop hdrLen ?out) = Payload p"
    by (simp add: spec_frame_def Let_def hdrLen_def)
  moreover have "length (Payload p) \<le> 255 \<longrightarrow> unat (?out ! 1) = length (Payload p)"
    using n by simp
  ultimately show "\<exists>out. written (wr (bw enc')) = written (wr (bw enc)) @ out \<and>
          length out = hdrLen + length (Payload p) + numChecksumBytes \<and>
          unat (out ! 1) = length (Payload p) mod 256 \<and>
          take (length (Payload p)) (drop hdrLen out) = Payload p \<and>
          (length (Payload p) \<le> 255 \<longrightarrow> unat (out ! 1) = length (Payload p))"
    using w by blast
qed

lemma spec_frame_length_byte: "spec_frame sq sy co ms pl crcx ! 1 = of_nat (length pl)"
  by (simp add: spec_frame_def Let_def)

theorem payload_length_invariant_witness:
  "(\<exists>q e dec'.
      Decode \<lparr>CurrSeqID = 3, Dialects = [[(0, 50)]],
              br = [0xfe, 2, 7, 1, 1, 0, 0xde, 0xad, 150, 45]\<rparr> = Inr ((Some q, e), dec') \<and>
      length (Payload q) \<le> 255) \<and>
   (\<exists>q e dec'.
      DecodeBytes \<lparr>CurrSeqID = 3, Dialects = [[(0, 50)]], br = []\<rparr>
        (slice_of [0xfe, 2, 7, 1, 1, 0, 0xde, 0xad, 150, 45]) = Inr ((Some q, e), dec') \<and>
      length (Payload q) \<le> 255) \<and>
   (\<exists>out.
      written (wr (bw (snd (EncodePacket
        \<lparr>CurrSeqID = 7, Dialects = [[(0, 50)]],
           bw = \<lparr>wsize = 4096, pending = [], werr = None,
                  wr = \<lparr>written = [], budget = None\<rparr>\<rparr>\<rparr>
        \<lparr>SeqID = 99, SysID = 1, CompID = 1, MsgID = 0, Payload = [0xde, 0xad],
           Checksum = 0\<rparr>)))) = out \<and>
      length out = 10 \<and> unat (out ! 1) = 2)"
proof -
  let ?dec = "\<lparr>CurrSeqID = 3, Dialects = [[(0, 50)]],
              br = [0xfe, 2, 7, 1, 1, 0, 0xde, 0xad, 150, 45]\<rparr>"
  let ?q = "\<lparr>SeqID = 7, SysID = 1, CompID = 1, MsgID = 0, Payload = [0xde, 0xad],
             Checksum = 11670\<rparr>"
  let ?bdec = "\<lparr>CurrSeqID = 3, Dialects = [[(0, 50)]], br = []\<rparr>"
  let ?b = "slice_of [0xfe, 2, 7, 1, 1, 0, 0xde, 0xad, 150, 45]"
  let ?enc = "\<lparr>CurrSeqID = 7, Dialects = [[(0, 50)]],
           bw = \<lparr>wsize = 4096, pending = [], werr = None,
                  wr = \<lparr>written = [], budget = None\<rparr>\<rparr>\<rparr>"
  let ?p = "\<lparr>SeqID = 99, SysID = 1, CompID = 1, MsgID = 0, Payload = [0xde, 0xad],
           Checksum = 0\<rparr>"
  note c = example_sums(2)
  have d: "Decode ?dec = Inr ((Some ?q, None), \<lparr>CurrSeqID = 7, Dialects = [[(0, 50)]], br = []\<rparr>)"
    using Decode_frame [where dec = ?dec and g = "[]" and pl = "[0xde, 0xad]" and L = 2
        and sq = 7 and sy = 1 and co = 1 and ms = 0 and ?c0.0 = 150 and ?c1.0 = 45 and r = "[]"]
    by (simp add: startByte_def c)
  have db: "DecodeBytes ?bdec ?b =
      Inr ((Some ?q, None), \<lparr>CurrSeqID = 7, Dialects = [[(0, 50)]], br = []\<rparr>)"
    using DecodeBytes_frame [where dec = ?bdec and pl = "[0xde, 0xad]" and L = 2
        and sq = 7 and sy = 1 and co = 1 and ms = 0 and ?c0.0 = 150 and ?c1.0 = 45
        and trailing = "[]" and sp = "[]"]
    by (simp add: startByte_def slice_of_def c)
  have "fst (EncodePacket ?enc ?p) = None"
    by (rule EncodePacket_reliable [where crcx = 50]) simp_all
  then have run: "EncodePacket ?enc ?p = (None, snd (EncodePacket ?enc ?p))"
    by (simp add: prod_eq_iff)
  from payload_length_invariant [THEN conjunct1, rule_format, OF d]
  have 1: "length (Payload ?q) \<le> 255" .
  from payload_length_invariant [THEN conjunct2, THEN conjunct1, rule_format, OF db]
  have 2: "length (Payload ?q) \<le> 255" .
  from payload_length_invariant [THEN conjunct2, THEN conjunct2, rule_format,
      of ?enc ?p "snd (EncodePacket ?enc ?p)"] run
  have 3: "\<exists>out. written (wr (bw (snd (EncodePacket ?enc ?p)))) = out \<and>
      length out = 10 \<and> unat (out ! 1) = 2"
    by (simp add: hdrLen_def numChecksumBytes_def)
  from d 1 have "\<exists>q e dec'. Decode ?dec = Inr ((Some q, e), dec') \<and> length (Payload q) \<le> 255"
    by blast
  moreover from db 2
  have "\<exists>q e dec'. DecodeBytes ?bdec ?b = Inr ((Some q, e), dec') \<and> length (Payload q) \<le> 255"
    by blast
  ultimately show ?thesis using 3 by blast
qed

text \<open>
  Claim C9 as stated fails on the encoder: a packet with 256 payload bytes is accepted,
  all 256 bytes are written, and the length byte on the wire is 0.
\<close>

theorem payload_length_counterexample:
  "fst (EncodePacket
     \<lparr>CurrSeqID = 7, Dialects = [[(0, 50)]],
        bw = \<lparr>wsize = 4096, pending = [], werr = None,
               wr = \<lparr>written = [], budget = None\<rparr>\<rparr>\<rparr>
     \<lparr>SeqID = 0, SysID = 1, CompID = 1, MsgID = 0, Payload = replicate 256 0,
        Checksum = 0\<rparr>) = None \<and>
   \<not> length (Payload
     \<lparr>SeqID = 0, SysID = 1, CompID = 1, MsgID = 0, Payload = replicate 256 0,
        Checksum = 0\<rparr>) \<le> 255 \<and>
   written (wr (bw (snd (EncodePacket
     \<lparr>CurrSeqID = 7, Dialects = [[(0, 50)]],
        bw = \<lparr>wsize = 4096, pending = [], werr = None,
               wr = \<lparr>written = [], budget = None\<rparr>\<rparr>\<rparr>
     \<lparr>SeqID = 0, SysID = 1, CompID = 1, MsgID = 0, Payload = replicate 256 0,
        Checksum = 0\<rparr>)))) ! 1 = 0 \<and>
   take 256 (drop 6 (written (wr (bw (snd (EncodePacket
     \<lparr>CurrSeqID = 7, Dialects = [[(0, 50)]],
        bw = \<lparr>wsize = 4096, pending = [], werr = None,
               wr = \<lparr>written = [], budget = None\<rparr>\<rparr>\<rparr>
     \<lparr>SeqID = 0, SysID = 1, CompID = 1, MsgID = 0, Payload = replicate 256 0,
        Checksum = 0\<rparr>)))))) = replicate 256 0"
proof -
  let ?enc = "\<lparr>CurrSeqID = 7, Dialects = [[(0, 50)]],
        bw = \<lparr>wsize = 4096, pending = [], werr = None,
               wr = \<lparr>written = [], budget = None\<rparr>\<rparr>\<rparr>"
  let ?p = "\<lparr>SeqID = 0, SysID = 1, CompID = 1, MsgID = 0, Payload = replicate 256 0,
        Checksum = 0\<rparr>"
  have ok: "fst (EncodePacket ?enc ?p) = None"
    by (rule EncodePacket_reliable [where crcx = 50]) simp_all
  then have run: "EncodePacket ?enc ?p = (None, snd (EncodePacket ?enc ?p))"
    by (simp add: prod_eq_iff)
  have "werr (bw ?enc) = None" by simp
  from EncodePacket_ok [OF this run]
  have w: "written (wr (bw (snd (EncodePacket ?enc ?p)))) =
      spec_frame 7 1 1 0 (replicate 256 0) 50"
    by simp
  have b: "spec_frame 7 1 1 0 (replicate 256 0) 50 ! 1 = 0"
    unfolding spec_frame_length_byte by simp
  have t: "take 256 (drop 6 (spec_frame 7 1 1 0 (replicate 256 0) 50)) = replicate 256 0"
    by (simp add: spec_frame_def Let_def)
  show ?thesis
    unfolding w using ok b t by simp
qed

end
